theory Spec2Isabelle
  imports Complex_Main
begin

section \<open>Scores\<close>

text \<open>
  A score is a float that is either finite or \<open>-inf\<close> (the value numpy writes for a
  masked-out arc).  Finite floats are idealised as reals: rounding is not modelled.
  \<open>+inf\<close> and NaN are outside the modelled range; the only subtraction of the decoder
  (\<open>ssub\<close>) has a finite subtrahend wherever the decoder calls it.
\<close>

datatype score = NegInf | Fin real

instantiation score :: linorder
begin

fun less_eq_score :: "score \<Rightarrow> score \<Rightarrow> bool" where
  "less_eq_score NegInf _ = True"
| "less_eq_score (Fin a) NegInf = False"
| "less_eq_score (Fin a) (Fin b) = (a \<le> b)"

fun less_score :: "score \<Rightarrow> score \<Rightarrow> bool" where
  "less_score _ NegInf = False"
| "less_score NegInf (Fin b) = True"
| "less_score (Fin a) (Fin b) = (a < b)"

instance
proof
  fix x y z :: score
  show "(x < y) = (x \<le> y \<and> \<not> y \<le> x)"
    by (cases x; cases y) auto
  show "x \<le> x"
    by (cases x) auto
  show "x \<le> y \<Longrightarrow> y \<le> z \<Longrightarrow> x \<le> z"
    by (cases x; cases y; cases z) auto
  show "x \<le> y \<Longrightarrow> y \<le> x \<Longrightarrow> x = y"
    by (cases x; cases y) auto
  show "x \<le> y \<or> y \<le> x"
    by (cases x; cases y) auto
qed

end

instantiation score :: comm_monoid_add
begin

definition zero_score :: score where
  "zero_score = Fin 0"

fun plus_score :: "score \<Rightarrow> score \<Rightarrow> score" where
  "plus_score (Fin a) (Fin b) = Fin (a + b)"
| "plus_score _ _ = NegInf"

instance
proof
  fix a b c :: score
  show "a + b + c = a + (b + c)"
    by (cases a; cases b; cases c) auto
  show "a + b = b + a"
    by (cases a; cases b) auto
  show "0 + a = a"
    by (cases a) (auto simp: zero_score_def)
qed

end

text \<open>\<open>a - b\<close> on floats, for a finite or \<open>-inf\<close> minuend.  With \<open>b = -inf\<close> IEEE
  arithmetic gives \<open>+inf\<close> or NaN, which the type does not have; that case is given
  the value \<open>-inf\<close> here and is shown not to arise (\<open>cycle_scores\<close> are finite).\<close>

fun ssub :: "score \<Rightarrow> score \<Rightarrow> score" where
  "ssub (Fin a) (Fin b) = Fin (a - b)"
| "ssub _ _ = NegInf"

section \<open>numpy helpers\<close>

text \<open>\<open>np.argmax\<close> of a one-dimensional array: the index of the first occurrence of the
  maximum.  (On an empty array numpy raises; the decoder never calls it on one.)\<close>

fun argmax :: "'a::linorder list \<Rightarrow> nat" where
  "argmax [] = 0"
| "argmax [x] = 0"
| "argmax (x # y # ys) = (let k = argmax (y # ys) in if x < (y # ys) ! k then Suc k else 0)"

text \<open>\<open>np.where(mask)[0]\<close>: the positions at which a boolean mask is true.\<close>

definition np_where :: "bool list \<Rightarrow> nat list" where
  "np_where msk = [i \<leftarrow> [0..<length msk]. msk ! i]"

text \<open>\<open>xs[mask]\<close>: boolean-mask selection.\<close>

definition select :: "bool list \<Rightarrow> 'a list \<Rightarrow> 'a list" where
  "select msk xs = map snd (filter fst (zip msk xs))"

text \<open>\<open>xs[locs] = vals\<close>: assignment through an index array.\<close>

definition scatter :: "'a list \<Rightarrow> nat list \<Rightarrow> 'a list \<Rightarrow> 'a list" where
  "scatter xs locs vals = fold (\<lambda>(l, v) acc. acc[l := v]) (zip locs vals) xs"

text \<open>\<open>mask.sum()\<close>: the number of true entries.\<close>

definition count_true :: "bool list \<Rightarrow> nat" where
  "count_true msk = length (filter (\<lambda>b. b) msk)"

section \<open>Tarjan's scan (\<open>tarjan\<close>)\<close>

text \<open>The mutable locals of \<open>tarjan\<close> that the closure \<open>strong_connect\<close> updates.  The
  stack is kept with its top (Python's \<open>stack[-1]\<close>) at the head of the list;
  \<open>index_ctr\<close> is \<open>_index[0]\<close>.\<close>

record tarjan_state =
  indices :: "int list"
  lowlinks :: "int list"
  onstack :: "bool list"
  stack :: "nat list"
  index_ctr :: nat
  cycles :: "bool list list"

text \<open>The \<open>while stack[-1] != i\<close> loop together with the three statements after it.
  (On an empty stack Python raises IndexError; \<open>i\<close> is on the stack whenever the loop
  runs.)\<close>

fun pop_cycle :: "nat \<Rightarrow> nat list \<Rightarrow> bool list \<Rightarrow> bool list \<Rightarrow> nat list \<times> bool list \<times> bool list" where
  "pop_cycle i [] os cycle = ([], os, cycle)"
| "pop_cycle i (j # rest) os cycle =
     (if j \<noteq> i then pop_cycle i rest (os[j := False]) (cycle[j := True])
      else (rest, os[i := False], cycle[i := True]))"

definition unvisited :: "int list \<Rightarrow> nat" where
  "unvisited xs = length (filter (\<lambda>x. x = - 1) xs)"

text \<open>\<open>strong_connect i\<close>, and its \<open>for j in dependents\<close> loop as \<open>sc_dependents\<close>.
  A dependent outside the arrays would raise IndexError in Python; the dependents are
  positions of \<open>heads\<close>, and the arrays have the length of \<open>heads\<close>.\<close>

function strong_connect :: "int list \<Rightarrow> nat \<Rightarrow> tarjan_state \<Rightarrow> tarjan_state"
  and sc_dependents :: "int list \<Rightarrow> nat \<Rightarrow> nat list \<Rightarrow> tarjan_state \<Rightarrow> tarjan_state" where
  "strong_connect heads i st =
     (let index = Suc (index_ctr st);
          st1 = st\<lparr>index_ctr := index,
                   indices := (indices st)[i := int index - 1],
                   lowlinks := (lowlinks st)[i := int index - 1],
                   stack := i # stack st,
                   onstack := (onstack st)[i := True]\<rparr>;
          dependents = [j \<leftarrow> [0..<length heads]. heads ! j = int i];
          st2 = sc_dependents heads i dependents st1
      in if lowlinks st2 ! i = indices st2 ! i then
           (case pop_cycle i (stack st2) (onstack st2) (replicate (length (indices st2)) False) of
              (stk, os, cycle) \<Rightarrow>
                st2\<lparr>stack := stk, onstack := os,
                    cycles := (if count_true cycle > 1 then cycles st2 @ [cycle] else cycles st2)\<rparr>)
         else st2)"
| "sc_dependents heads i [] st = st"
| "sc_dependents heads i (j # js) st =
     (if j < length (indices st) \<and> indices st ! j = - 1 then
        (let st' = strong_connect heads j st
         in sc_dependents heads i js
              (st'\<lparr>lowlinks := (lowlinks st')[i := min (lowlinks st' ! i) (lowlinks st' ! j)]\<rparr>))
      else if onstack st ! j then
        sc_dependents heads i js
          (st\<lparr>lowlinks := (lowlinks st)[i := min (lowlinks st ! i) (indices st ! j)]\<rparr>)
      else sc_dependents heads i js st)"
  by pat_completeness auto

lemma unvisited_update_visited:
  "v \<noteq> - 1 \<Longrightarrow> unvisited (xs[i := v]) \<le> unvisited xs"
proof (induction xs arbitrary: i)
  case Nil
  then show ?case by (simp add: unvisited_def)
next
  case (Cons x xs)
  then show ?case
    by (cases i) (auto simp: unvisited_def le_SucI)
qed

lemma unvisited_update_less:
  "i < length xs \<Longrightarrow> xs ! i = - 1 \<Longrightarrow> v \<noteq> - 1 \<Longrightarrow> unvisited (xs[i := v]) < unvisited xs"
proof (induction xs arbitrary: i)
  case Nil
  then show ?case by simp
next
  case (Cons x xs)
  show ?case
  proof (cases i)
    case 0
    with Cons.prems show ?thesis by (simp add: unvisited_def)
  next
    case (Suc k)
    with Cons.prems have "unvisited (xs[k := v]) < unvisited xs"
      by (intro Cons.IH) auto
    with Suc show ?thesis by (simp add: unvisited_def)
  qed
qed

lemma unvisited_update_eq:
  "v \<noteq> - 1 \<Longrightarrow> w \<noteq> - 1 \<Longrightarrow> unvisited (xs[i := v]) = unvisited (xs[i := w])"
proof (induction xs arbitrary: i)
  case Nil
  then show ?case by simp
next
  case (Cons x xs)
  then show ?case
    by (cases i) (auto simp: unvisited_def)
qed

lemma strong_connect_unvisited_dom:
  "strong_connect_sc_dependents_dom (Inl (heads, i, st)) \<Longrightarrow>
     unvisited (indices (strong_connect heads i st)) \<le> unvisited ((indices st)[i := 0]) \<and>
     length (indices (strong_connect heads i st)) = length (indices st)"
  "strong_connect_sc_dependents_dom (Inr (heads, i, js, st)) \<Longrightarrow>
     unvisited (indices (sc_dependents heads i js st)) \<le> unvisited (indices st) \<and>
     length (indices (sc_dependents heads i js st)) = length (indices st)"
proof (induction heads i st and heads i js st rule: strong_connect_sc_dependents.pinduct)
  case (1 heads i st)
  then show ?case
    using unvisited_update_eq [of "int (index_ctr st)" 0 "indices st" i]
    by (simp add: strong_connect.psimps Let_def split: prod.splits)
next
  case (2 heads i st)
  then show ?case by (simp add: sc_dependents.psimps)
next
  case (3 heads i j js st)
  show ?case
  proof (cases "j < length (indices st) \<and> indices st ! j = - 1")
    case True
    with 3 have "unvisited (indices (strong_connect heads j st)) \<le> unvisited ((indices st)[j := 0])"
      and "length (indices (strong_connect heads j st)) = length (indices st)"
      by simp_all
    moreover have "unvisited ((indices st)[j := 0]) \<le> unvisited (indices st)"
      by (rule unvisited_update_visited) simp
    ultimately show ?thesis
      using 3 True by (simp add: sc_dependents.psimps Let_def)
  next
    case False
    with 3 show ?thesis by (auto simp: sc_dependents.psimps)
  qed
qed

termination strong_connect
proof (relation "measures
    [\<lambda>x. case x of Inl (heads, i, st) \<Rightarrow> unvisited ((indices st)[i := 0])
                    | Inr (heads, i, js, st) \<Rightarrow> unvisited (indices st),
     \<lambda>x. case x of Inl (heads, i, st) \<Rightarrow> Suc 0 | Inr (heads, i, js, st) \<Rightarrow> 0,
     \<lambda>x. case x of Inl (heads, i, st) \<Rightarrow> 0 | Inr (heads, i, js, st) \<Rightarrow> length js]", goal_cases)
  case 1
  show ?case by simp
next
  case (2 heads i st)
  then show ?case
    using unvisited_update_eq [of "int (index_ctr st)" 0 "indices st" i]
    by simp
next
  case (3 heads i j js st)
  then show ?case
    using unvisited_update_less [of j "indices st" 0] by simp
next
  case (4 heads i j js st st')
  then show ?case
    using strong_connect_unvisited_dom(1) [of heads j st]
      unvisited_update_visited [of 0 "indices st" j]
    by auto
next
  case (5 heads i j js st)
  then show ?case by simp
next
  case (6 heads i j js st)
  then show ?case by simp
qed

lemma pop_cycle_length:
  "pop_cycle i stk os cyc = (stk', os', cyc') \<Longrightarrow> length os' = length os \<and> length cyc' = length cyc"
  by (induction i stk os cyc rule: pop_cycle.induct) (auto split: if_splits)

declare strong_connect.simps [simp del] sc_dependents.simps(2) [simp del]

text \<open>The body of \<open>tarjan\<close>: fresh arrays, then \<open>strong_connect\<close> from every position that
  is still unvisited, in index order.\<close>

definition tarjan_init :: "int list \<Rightarrow> tarjan_state" where
  "tarjan_init heads =
     \<lparr>indices = replicate (length heads) (- 1),
      lowlinks = replicate (length heads) (- 1),
      onstack = replicate (length heads) False,
      stack = [],
      index_ctr = 0,
      cycles = []\<rparr>"

definition tarjan_step :: "int list \<Rightarrow> nat \<Rightarrow> tarjan_state \<Rightarrow> tarjan_state" where
  "tarjan_step heads i st = (if indices st ! i = - 1 then strong_connect heads i st else st)"

definition tarjan :: "int list \<Rightarrow> bool list list" where
  "tarjan heads = cycles (fold (tarjan_step heads) [0..<length heads] (tarjan_init heads))"

section \<open>Chu-Liu-Edmonds (\<open>chu_liu_edmonds\<close>)\<close>

type_synonym matrix = "score list list"

datatype error = IndexError | AssertionError | TypeError | ValueError

text \<open>\<open>np.fill_diagonal(score_matrix, v)\<close>.\<close>

definition fill_diagonal :: "matrix \<Rightarrow> score \<Rightarrow> matrix" where
  "fill_diagonal m v = map (\<lambda>i. (m ! i)[i := v]) [0..<length m]"

text \<open>The three in-place statements at the head of \<open>chu_liu_edmonds\<close>: the value is the
  content of the caller's array after them.\<close>

definition prepare_scores :: "matrix \<Rightarrow> matrix" where
  "prepare_scores score_matrix =
     (let m1 = fill_diagonal score_matrix NegInf;
          m2 = m1[0 := replicate (length (m1 ! 0)) NegInf];
          m3 = m2[0 := (m2 ! 0)[0 := Fin 0]]
      in m3)"

text \<open>\<open>score_matrix.argmax(1)\<close>, an integer array.\<close>

definition greedy_heads :: "matrix \<Rightarrow> int list" where
  "greedy_heads score_matrix = map (\<lambda>row. int (argmax row)) score_matrix"

text \<open>The locals of the contraction branch, each under the name it has in the source.\<close>

definition cycle_locs :: "bool list \<Rightarrow> nat list" where
  "cycle_locs cycle = np_where cycle"

definition noncycle_locs :: "bool list \<Rightarrow> nat list" where
  "noncycle_locs cycle = np_where (map Not cycle)"

definition cycle_scores :: "matrix \<Rightarrow> int list \<Rightarrow> bool list \<Rightarrow> score list" where
  "cycle_scores score_matrix heads cycle =
     map2 (\<lambda>c h. score_matrix ! c ! nat h) (cycle_locs cycle) (select cycle heads)"

definition metanode_head_scores :: "matrix \<Rightarrow> int list \<Rightarrow> bool list \<Rightarrow> matrix" where
  "metanode_head_scores score_matrix heads cycle =
     (let cs = cycle_scores score_matrix heads cycle;
          cycle_score = sum_list cs
      in map2 (\<lambda>c s. map (\<lambda>k. ssub (score_matrix ! c ! k) s + cycle_score) (noncycle_locs cycle))
           (cycle_locs cycle) cs)"

definition metanode_dep_scores :: "matrix \<Rightarrow> bool list \<Rightarrow> matrix" where
  "metanode_dep_scores score_matrix cycle =
     map (\<lambda>k. map (\<lambda>c. score_matrix ! k ! c) (cycle_locs cycle)) (noncycle_locs cycle)"

text \<open>\<open>np.argmax(..., axis=0)\<close>: one arg-max per column.\<close>

definition metanode_heads :: "matrix \<Rightarrow> int list \<Rightarrow> bool list \<Rightarrow> nat list" where
  "metanode_heads score_matrix heads cycle =
     (let mhs = metanode_head_scores score_matrix heads cycle
      in map (\<lambda>b. argmax (map (\<lambda>row. row ! b) mhs)) [0..<length (noncycle_locs cycle)])"

definition metanode_deps :: "matrix \<Rightarrow> bool list \<Rightarrow> nat list" where
  "metanode_deps score_matrix cycle = map argmax (metanode_dep_scores score_matrix cycle)"

text \<open>\<open>subscores\<close>, the matrix of the contracted problem: the non-cycle block, padded with
  one row and one column of zeros, then the last row and the last column overwritten but
  for their common last cell.\<close>

definition subscores :: "matrix \<Rightarrow> int list \<Rightarrow> bool list \<Rightarrow> matrix" where
  "subscores score_matrix heads cycle =
     (let nl = noncycle_locs cycle;
          n = length nl;
          mhs = metanode_head_scores score_matrix heads cycle;
          mds = metanode_dep_scores score_matrix cycle;
          mh = metanode_heads score_matrix heads cycle;
          md = metanode_deps score_matrix cycle;
          sub0 = map (\<lambda>a. map (\<lambda>b. score_matrix ! a ! b) nl) nl;
          sub1 = map (\<lambda>row. row @ [Fin 0]) sub0 @ [replicate (Suc n) (Fin 0)];
          sub2 = sub1[n := map (\<lambda>b. mhs ! (mh ! b) ! b) [0..<n] @ [sub1 ! n ! n]];
          sub3 = map (\<lambda>a. if a < n then (sub2 ! a)[n := mds ! a ! (md ! a)] else sub2 ! a) [0..<Suc n]
      in sub3)"

text \<open>The re-expansion: everything after the recursive call, from the tree of the
  contracted problem to \<open>new_heads\<close>.\<close>

definition expand :: "matrix \<Rightarrow> int list \<Rightarrow> bool list \<Rightarrow> int list \<Rightarrow> int list" where
  "expand score_matrix heads cycle contracted_tree0 =
     (let cl = cycle_locs cycle;
          nl = noncycle_locs cycle;
          mh = metanode_heads score_matrix heads cycle;
          md = metanode_deps score_matrix cycle;
          cycle_head = last contracted_tree0;
          contracted_tree = butlast contracted_tree0;
          new_heads0 = replicate (length heads) (- 1);
          contracted_subtree = map (\<lambda>h. h < int (length contracted_tree)) contracted_tree;
          new_heads1 = scatter new_heads0 (select contracted_subtree nl)
                         (map (\<lambda>h. int (nl ! nat h)) (select contracted_subtree contracted_tree));
          contracted_subtree' = map Not contracted_subtree;
          new_heads2 = scatter new_heads1 (select contracted_subtree' nl)
                         (map (\<lambda>d. int (cl ! d)) (select contracted_subtree' md));
          new_heads3 = scatter new_heads2 cl (map (\<lambda>c. heads ! c) cl);
          cycle_root = mh ! nat cycle_head
      in new_heads3[cl ! cycle_root := int (nl ! nat cycle_head)])"

lemma count_true_np_where: "length (np_where msk) = count_true msk"
proof -
  have "map (\<lambda>i. msk ! i) [0..<length msk] = msk"
    by (simp add: map_nth)
  then have "length (filter (\<lambda>b. b) (map (\<lambda>i. msk ! i) [0..<length msk])) = count_true msk"
    by (simp add: count_true_def)
  then show ?thesis
    by (simp add: np_where_def filter_map comp_def)
qed

lemma count_true_Not: "count_true (map Not msk) + count_true msk = length msk"
  unfolding count_true_def
  using sum_length_filter_compl [of "\<lambda>b. \<not> b" msk]
  by (simp add: filter_map comp_def)

lemma length_subscores:
  "length (subscores score_matrix heads cycle) = Suc (length cycle - count_true cycle)"
  using count_true_Not [of cycle]
  by (simp add: subscores_def Let_def noncycle_locs_def count_true_np_where)

subsection \<open>Shape of the masks that \<open>tarjan\<close> returns\<close>

lemma strong_connect_shape:
  "length (indices st) = n \<Longrightarrow> (\<forall>c \<in> set (cycles st). length c = n \<and> 1 < count_true c) \<Longrightarrow>
     length (indices (strong_connect heads i st)) = n \<and>
     (\<forall>c \<in> set (cycles (strong_connect heads i st)). length c = n \<and> 1 < count_true c)"
  "length (indices st) = n \<Longrightarrow> (\<forall>c \<in> set (cycles st). length c = n \<and> 1 < count_true c) \<Longrightarrow>
     length (indices (sc_dependents heads i js st)) = n \<and>
     (\<forall>c \<in> set (cycles (sc_dependents heads i js st)). length c = n \<and> 1 < count_true c)"
proof (induction heads i st and heads i js st rule: strong_connect_sc_dependents.induct)
  case (1 heads i st)
  define st1 where "st1 = st\<lparr>index_ctr := Suc (index_ctr st),
                   indices := (indices st)[i := int (Suc (index_ctr st)) - 1],
                   lowlinks := (lowlinks st)[i := int (Suc (index_ctr st)) - 1],
                   stack := i # stack st,
                   onstack := (onstack st)[i := True]\<rparr>"
  define st2 where "st2 = sc_dependents heads i [j \<leftarrow> [0..<length heads]. heads ! j = int i] st1"
  have "length (indices st1) = n" "\<forall>c \<in> set (cycles st1). length c = n \<and> 1 < count_true c"
    using "1.prems" by (simp_all add: st1_def)
  then have st2: "length (indices st2) = n" "\<forall>c \<in> set (cycles st2). length c = n \<and> 1 < count_true c"
    using "1.IH" [OF refl st1_def refl] unfolding st2_def by blast+
  obtain stk os cyc where pc: "pop_cycle i (stack st2) (onstack st2) (replicate (length (indices st2)) False)
      = (stk, os, cyc)"
    by (cases "pop_cycle i (stack st2) (onstack st2) (replicate (length (indices st2)) False)")
  then have "length cyc = n"
    using pop_cycle_length [OF pc] st2 by simp
  with st2 pc show ?case
    unfolding strong_connect.simps [of heads i st] Let_def st1_def [symmetric] st2_def [symmetric]
    by auto
next
  case (2 heads i st)
  then show ?case by simp
next
  case (3 heads i j js st)
  show ?case
  proof (cases "j < length (indices st) \<and> indices st ! j = - 1")
    case True
    from "3.IH"(1) [OF True "3.prems"]
    have "length (indices (strong_connect heads j st)) = n"
      "\<forall>c \<in> set (cycles (strong_connect heads j st)). length c = n \<and> 1 < count_true c"
      by blast+
    then show ?thesis
      using "3.IH"(2) [OF True refl] True by (simp add: sc_dependents.simps(2) Let_def)
  next
    case False
    then show ?thesis
      using "3.IH"(3,4) [OF False] "3.prems" by (auto simp: sc_dependents.simps(2))
  qed
qed

lemma tarjan_fold_shape:
  "length (indices st) = n \<Longrightarrow> (\<forall>c \<in> set (cycles st). length c = n \<and> 1 < count_true c) \<Longrightarrow>
     length (indices (fold (tarjan_step heads) is st)) = n \<and>
     (\<forall>c \<in> set (cycles (fold (tarjan_step heads) is st)). length c = n \<and> 1 < count_true c)"
proof (induction "is" arbitrary: st)
  case Nil
  then show ?case by simp
next
  case (Cons i "is")
  have "length (indices (tarjan_step heads i st)) = n \<and>
     (\<forall>c \<in> set (cycles (tarjan_step heads i st)). length c = n \<and> 1 < count_true c)"
    using strong_connect_shape(1) [OF Cons.prems] Cons.prems by (simp add: tarjan_step_def)
  then show ?case
    using Cons.IH [of "tarjan_step heads i st"] by simp
qed

lemma tarjan_shape:
  assumes "c \<in> set (tarjan heads)"
  shows "length c = length heads" and "1 < count_true c"
  using tarjan_fold_shape [of "tarjan_init heads" "length heads" heads "[0..<length heads]"] assms
  by (simp_all add: tarjan_def tarjan_init_def)

lemma length_greedy_heads [simp]: "length (greedy_heads m) = length m"
  by (simp add: greedy_heads_def)

lemma length_prepare_scores [simp]: "length (prepare_scores m) = length m"
  by (simp add: prepare_scores_def fill_diagonal_def Let_def)

text \<open>The function itself.  Its value is the pair of what Python returns (or raises) and
  the content of the caller's array afterwards: the array is written in place before
  anything else happens.  On a 0 x 0 array \<open>score_matrix[0] = -np.inf\<close> raises.
  \<open>cycles.pop()\<close> is the last mask found.\<close>

function chu_liu_edmonds :: "matrix \<Rightarrow> (error + int list) \<times> matrix" where
  "chu_liu_edmonds score_matrix0 =
     (if score_matrix0 = [] then (Inl IndexError, score_matrix0)
      else
        (let score_matrix = prepare_scores score_matrix0;
             heads = greedy_heads score_matrix;
             cycles = tarjan heads
         in if cycles \<noteq> [] then
              (let cycle = last cycles
               in case fst (chu_liu_edmonds (subscores score_matrix heads cycle)) of
                    Inl e \<Rightarrow> (Inl e, score_matrix)
                  | Inr contracted_tree \<Rightarrow>
                      (Inr (expand score_matrix heads cycle contracted_tree), score_matrix))
            else (Inr heads, score_matrix)))"
  by pat_completeness auto
termination
proof (relation "measure length", goal_cases)
  case 1
  show ?case by simp
next
  case (2 score_matrix0 score_matrix heads cycles cycle)
  then have "cycle \<in> set (tarjan heads)"
    by simp
  then have "length cycle = length heads" "1 < count_true cycle"
    by (auto dest: tarjan_shape)
  moreover have "count_true cycle \<le> length cycle"
    by (simp add: count_true_def)
  ultimately show ?case
    using 2 by (simp add: length_subscores)
qed

declare chu_liu_edmonds.simps [simp del]

text \<open>The depth of the recursion of \<open>chu_liu_edmonds\<close>: the same tests and the same
  recursive call, counting the calls below the first.\<close>

function cle_depth :: "matrix \<Rightarrow> nat" where
  "cle_depth score_matrix0 =
     (if score_matrix0 = [] then 0
      else
        (let score_matrix = prepare_scores score_matrix0;
             heads = greedy_heads score_matrix;
             cycles = tarjan heads
         in if cycles \<noteq> [] then Suc (cle_depth (subscores score_matrix heads (last cycles)))
            else 0))"
  by pat_completeness auto
termination
proof (relation "measure length", goal_cases)
  case 1
  show ?case by simp
next
  case (2 score_matrix0 score_matrix heads cycles)
  then have "last cycles \<in> set (tarjan heads)"
    by simp
  then have "length (last cycles) = length heads" "1 < count_true (last cycles)"
    by (auto dest: tarjan_shape)
  moreover have "count_true (last cycles) \<le> length (last cycles)"
    by (simp add: count_true_def)
  ultimately show ?case
    using 2 by (simp add: length_subscores)
qed

declare cle_depth.simps [simp del]

section \<open>The single-root variant (\<open>chu_liu_edmonds_one_root\<close>)\<close>

text \<open>\<open>set_root\<close>: \<open>np.array(scores)\<close> is a copy, so the argument is not written.\<close>

definition set_root :: "matrix \<Rightarrow> nat \<Rightarrow> matrix \<times> score" where
  "set_root scores rt =
     (let root_score = scores ! rt ! 0;
          scores1 = map (\<lambda>i. if 1 \<le> i then (scores ! i)[0 := NegInf] else scores ! i)
                      [0..<length scores];
          scores2 = scores1[rt := replicate (length (scores1 ! rt)) NegInf];
          scores3 = scores2[rt := (scores2 ! rt)[0 := Fin 0]]
      in (scores3, root_score))"

text \<open>\<open>roots_to_try = np.where(np.equal(tree[1:], 0))[0] + 1\<close>.\<close>

definition roots_to_try :: "int list \<Rightarrow> nat list" where
  "roots_to_try tree = map (\<lambda>k. k + 1) (np_where (map (\<lambda>h. h = 0) (tl tree)))"

text \<open>The locals of one iteration of the loop over \<open>roots_to_try\<close>.  \<open>tree_log_probs\<close> is
  read from \<open>new_scores\<close> after \<open>chu_liu_edmonds\<close> has written to it.\<close>

definition new_tree :: "matrix \<Rightarrow> nat \<Rightarrow> error + int list" where
  "new_tree score_matrix rt = fst (chu_liu_edmonds (fst (set_root score_matrix rt)))"

definition tree_log_probs :: "matrix \<Rightarrow> nat \<Rightarrow> int list \<Rightarrow> score list" where
  "tree_log_probs score_matrix rt t =
     (let new_scores = snd (chu_liu_edmonds (fst (set_root score_matrix rt)))
      in map (\<lambda>i. new_scores ! i ! nat (t ! i)) [0..<length score_matrix])"

definition tree_score :: "matrix \<Rightarrow> nat \<Rightarrow> int list \<Rightarrow> score" where
  "tree_score score_matrix rt t =
     sum_list (tree_log_probs score_matrix rt t) + snd (set_root score_matrix rt)"

text \<open>One iteration, on the pair \<open>(best_score, best_tree)\<close>; \<open>None\<close> is Python's \<open>None\<close>.
  An exception of the inner call ends the loop.\<close>

definition try_root ::
  "matrix \<Rightarrow> nat \<Rightarrow> error + (score \<times> int list option) \<Rightarrow> error + (score \<times> int list option)" where
  "try_root score_matrix rt acc =
     (case acc of
        Inl e \<Rightarrow> Inl e
      | Inr (best_score, best_tree) \<Rightarrow>
          (case new_tree score_matrix rt of
             Inl e \<Rightarrow> Inl e
           | Inr t \<Rightarrow>
               if list_all (\<lambda>p. NegInf < p) (tree_log_probs score_matrix rt t) then
                 (if best_score < tree_score score_matrix rt t
                  then Inr (tree_score score_matrix rt t, Some t)
                  else Inr (best_score, best_tree))
               else Inr (best_score, best_tree)))"

text \<open>The function: the result (or the exception) and the content of the caller's array
  afterwards.  \<open>astype\<close> copies, so every write goes to the copy.\<close>

definition chu_liu_edmonds_one_root :: "matrix \<Rightarrow> (error + int list) \<times> matrix" where
  "chu_liu_edmonds_one_root score_matrix0 =
     (case chu_liu_edmonds score_matrix0 of
        (Inl e, _) \<Rightarrow> (Inl e, score_matrix0)
      | (Inr tree, score_matrix) \<Rightarrow>
          if length (roots_to_try tree) = 1 then (Inr tree, score_matrix0)
          else
            (case fold (try_root score_matrix) (roots_to_try tree) (Inr (NegInf, None)) of
               Inl e \<Rightarrow> (Inl e, score_matrix0)
             | Inr (best_score, None) \<Rightarrow> (Inl AssertionError, score_matrix0)
             | Inr (best_score, Some best_tree) \<Rightarrow> (Inr best_tree, score_matrix0)))"

section \<open>Well-formed inputs\<close>

text \<open>An \<open>n x n\<close> array with \<open>n \<ge> 1\<close>: a sentence always holds the root pseudo-token.\<close>

definition square_matrix :: "matrix \<Rightarrow> bool" where
  "square_matrix m = (m \<noteq> [] \<and> list_all (\<lambda>row. length row = length m) m)"

lemma square_matrixD:
  "square_matrix m \<Longrightarrow> m \<noteq> []"
  "square_matrix m \<Longrightarrow> i < length m \<Longrightarrow> length (m ! i) = length m"
  by (auto simp: square_matrix_def list_all_length)

section \<open>Basic facts about \<open>chu_liu_edmonds\<close>\<close>

lemma subscores_nonempty [simp]: "subscores score_matrix heads cycle \<noteq> []"
  using length_subscores [of score_matrix heads cycle] by auto

lemma chu_liu_edmonds_snd:
  "m \<noteq> [] \<Longrightarrow> snd (chu_liu_edmonds m) = prepare_scores m"
  by (subst chu_liu_edmonds.simps) (simp add: Let_def split: sum.splits)

lemma chu_liu_edmonds_returns:
  "m \<noteq> [] \<Longrightarrow> \<exists>t. fst (chu_liu_edmonds m) = Inr t"
proof (induction m rule: chu_liu_edmonds.induct)
  case (1 m)
  show ?case
  proof (cases "tarjan (greedy_heads (prepare_scores m)) = []")
    case True
    with "1.prems" show ?thesis
      by (subst chu_liu_edmonds.simps) (simp add: Let_def)
  next
    case False
    from "1.IH" [OF "1.prems" refl refl refl False refl]
    obtain t where "fst (chu_liu_edmonds (subscores (prepare_scores m) (greedy_heads (prepare_scores m))
        (last (tarjan (greedy_heads (prepare_scores m)))))) = Inr t"
      by auto
    with False "1.prems" show ?thesis
      by (subst chu_liu_edmonds.simps) (simp add: Let_def)
  qed
qed

lemma prepare_scores_cell:
  assumes "square_matrix m" "i < length m" "j < length m"
  shows "prepare_scores m ! i ! j =
    (if i = 0 then (if j = 0 then Fin 0 else NegInf) else if i = j then NegInf else m ! i ! j)"
  using assms square_matrixD(2) [of m i] square_matrixD(2) [of m 0]
  by (auto simp: prepare_scores_def fill_diagonal_def Let_def nth_list_update)

lemma prepare_scores_row_length:
  assumes "square_matrix m" "i < length m"
  shows "length (prepare_scores m ! i) = length m"
  using assms square_matrixD(2) [of m i] square_matrixD(2) [of m 0]
  by (cases "i = 0") (auto simp: prepare_scores_def fill_diagonal_def Let_def nth_list_update)

lemma chu_liu_edmonds_one_root_snd:
  "snd (chu_liu_edmonds_one_root m) = m"
  by (simp add: chu_liu_edmonds_one_root_def split: prod.splits sum.splits option.splits)

lemma cle_depth_less: "m \<noteq> [] \<Longrightarrow> cle_depth m < length m"
proof (induction m rule: cle_depth.induct)
  case (1 m)
  let ?sm = "prepare_scores m"
  let ?heads = "greedy_heads ?sm"
  show ?case
  proof (cases "tarjan ?heads = []")
    case True
    with "1.prems" show ?thesis
      by (subst cle_depth.simps) (simp add: Let_def)
  next
    case False
    let ?cycle = "last (tarjan ?heads)"
    from False have "?cycle \<in> set (tarjan ?heads)"
      by simp
    then have "length ?cycle = length m" "1 < count_true ?cycle"
      by (auto dest: tarjan_shape)
    moreover have "count_true ?cycle \<le> length ?cycle"
      by (simp add: count_true_def)
    ultimately have "length (subscores ?sm ?heads ?cycle) < length m"
      by (simp add: length_subscores)
    moreover have "cle_depth (subscores ?sm ?heads ?cycle) < length (subscores ?sm ?heads ?cycle)"
      using "1.IH" [OF "1.prems" refl refl refl False] by simp
    ultimately show ?thesis
      using False "1.prems" by (subst cle_depth.simps) (simp add: Let_def)
  qed
qed
section \<open>Arborescences\<close>

text \<open>A head array \<open>t\<close> over \<open>n = length t\<close> tokens is an arborescence rooted at token 0
  when token 0 is its own head, every head is a position of the array, and following the
  heads from any token arrives at token 0 (after \<open>n\<close> steps at the latest, and then stays
  there).  Its total score adds the scores of the arcs of the tokens \<open>1, ..., n - 1\<close>.\<close>

definition head_of :: "int list \<Rightarrow> nat \<Rightarrow> nat" where
  "head_of t i = nat (t ! i)"

definition is_arborescence :: "int list \<Rightarrow> bool" where
  "is_arborescence t =
     (t \<noteq> [] \<and> t ! 0 = 0 \<and>
      list_all (\<lambda>h. 0 \<le> h \<and> h < int (length t)) t \<and>
      list_all (\<lambda>i. (head_of t ^^ length t) i = 0) [0..<length t])"

definition tree_total :: "matrix \<Rightarrow> int list \<Rightarrow> score" where
  "tree_total score_matrix t = sum_list (map (\<lambda>i. score_matrix ! i ! nat (t ! i)) [1..<length t])"
section \<open>Facts about the helpers and about \<open>chu_liu_edmonds\<close>\<close>

lemma argmax_less: "xs \<noteq> [] \<Longrightarrow> argmax xs < length xs"
  by (induction xs rule: argmax.induct) (auto simp: Let_def)

lemma argmax_max: "i < length xs \<Longrightarrow> xs ! i \<le> xs ! argmax xs"
proof (induction xs arbitrary: i rule: argmax.induct)
  case 1
  then show ?case by simp
next
  case (2 x)
  then show ?case by simp
next
  case (3 x y ys)
  show ?case
  proof (cases i)
    case 0
    then show ?thesis by (auto simp: Let_def)
  next
    case (Suc k)
    with "3.prems" have "(y # ys) ! k \<le> (y # ys) ! argmax (y # ys)"
      by (intro "3.IH") auto
    with Suc show ?thesis
      by (auto simp: Let_def)
  qed
qed

lemma argmax_first: "i < argmax xs \<Longrightarrow> xs ! i < xs ! argmax xs"
proof (induction xs arbitrary: i rule: argmax.induct)
  case 1
  then show ?case by simp
next
  case (2 x)
  then show ?case by simp
next
  case (3 x y ys)
  show ?case
  proof (cases i)
    case 0
    with "3.prems" show ?thesis by (auto simp: Let_def split: if_splits)
  next
    case (Suc k)
    with "3.prems" have "k < argmax (y # ys)"
      by (auto simp: Let_def split: if_splits)
    then have "(y # ys) ! k < (y # ys) ! argmax (y # ys)"
      by (rule "3.IH")
    with Suc "3.prems" show ?thesis
      by (auto simp: Let_def split: if_splits)
  qed
qed

lemma length_scatter [simp]: "length (scatter xs locs vals) = length xs"
proof -
  have "length (fold (\<lambda>(l, v) acc. acc[l := v]) zs xs) = length xs" for zs
    by (induction zs arbitrary: xs) (auto simp: case_prod_beta)
  then show ?thesis
    by (simp add: scatter_def)
qed

lemma length_expand [simp]: "length (expand m heads cycle ct) = length heads"
  by (simp add: expand_def Let_def)

lemma chu_liu_edmonds_length:
  "m \<noteq> [] \<Longrightarrow> fst (chu_liu_edmonds m) = Inr t \<Longrightarrow> length t = length m"
  by (subst (asm) chu_liu_edmonds.simps) (auto simp: Let_def split: if_splits sum.splits)

lemma set_root_nonempty: "m \<noteq> [] \<Longrightarrow> fst (set_root m r) \<noteq> []"
  by (simp add: set_root_def Let_def)

lemma new_tree_returns: "m \<noteq> [] \<Longrightarrow> \<exists>t. new_tree m r = Inr t"
  unfolding new_tree_def by (intro chu_liu_edmonds_returns set_root_nonempty)

text \<open>One iteration on a non-empty matrix, where the inner call returns a tree \<open>t\<close>.\<close>
section \<open>Correctness of \<open>tarjan\<close> on a head array\<close>

text \<open>The scan runs on the graph with an edge from each token to its dependents, so every
  token has exactly one incoming edge, from its head.  \<open>desc heads i\<close> are the tokens from
  which following the heads arrives at \<open>i\<close>: what a search from \<open>i\<close> along the edges can
  reach.\<close>

definition valid_heads :: "int list \<Rightarrow> bool" where
  "valid_heads heads = (\<forall>i < length heads. 0 \<le> heads ! i \<and> heads ! i < int (length heads))"

definition desc :: "int list \<Rightarrow> nat \<Rightarrow> nat set" where
  "desc heads i = {j. j < length heads \<and> (\<exists>k. (head_of heads ^^ k) j = i)}"

text \<open>\<open>i\<close> lies on no cycle of the heads but, possibly, a loop from \<open>i\<close> to itself.\<close>

definition no_big_cycle :: "int list \<Rightarrow> nat \<Rightarrow> bool" where
  "no_big_cycle heads i = (\<forall>k > 0. (head_of heads ^^ k) i = i \<longrightarrow> head_of heads i = i)"

definition dependents :: "int list \<Rightarrow> nat \<Rightarrow> nat list" where
  "dependents heads i = [j \<leftarrow> [0..<length heads]. heads ! j = int i]"

text \<open>The first statements of \<open>strong_connect\<close> and its last ones, as state transformers.\<close>

definition visit :: "nat \<Rightarrow> tarjan_state \<Rightarrow> tarjan_state" where
  "visit i st = st\<lparr>index_ctr := Suc (index_ctr st),
                   indices := (indices st)[i := int (Suc (index_ctr st)) - 1],
                   lowlinks := (lowlinks st)[i := int (Suc (index_ctr st)) - 1],
                   stack := i # stack st,
                   onstack := (onstack st)[i := True]\<rparr>"

definition finish :: "nat \<Rightarrow> tarjan_state \<Rightarrow> tarjan_state" where
  "finish i st2 =
     (if lowlinks st2 ! i = indices st2 ! i then
        (case pop_cycle i (stack st2) (onstack st2) (replicate (length (indices st2)) False) of
           (stk, os, cycle) \<Rightarrow>
             st2\<lparr>stack := stk, onstack := os,
                 cycles := (if count_true cycle > 1 then cycles st2 @ [cycle] else cycles st2)\<rparr>)
      else st2)"

lemma strong_connect_unfold:
  "strong_connect heads i st = finish i (sc_dependents heads i (dependents heads i) (visit i st))"
  by (subst strong_connect.simps) (simp only: Let_def visit_def finish_def dependents_def)

lemma visit_fields [simp]:
  "index_ctr (visit i st) = Suc (index_ctr st)"
  "indices (visit i st) = (indices st)[i := int (index_ctr st)]"
  "lowlinks (visit i st) = (lowlinks st)[i := int (index_ctr st)]"
  "stack (visit i st) = i # stack st"
  "onstack (visit i st) = (onstack st)[i := True]"
  "cycles (visit i st) = cycles st"
  by (simp_all add: visit_def)

text \<open>The state invariant: the arrays have the length of \<open>heads\<close>; a visited token has an
  index below the counter and a lowlink not above its index; \<open>onstack\<close> is membership in
  the stack, whose tokens are visited and distinct; and the dependents of a token that is
  visited and off the stack are visited and off the stack.\<close>

definition tarjan_inv :: "int list \<Rightarrow> tarjan_state \<Rightarrow> bool" where
  "tarjan_inv heads st =
     (length (indices st) = length heads \<and> length (lowlinks st) = length heads \<and>
      length (onstack st) = length heads \<and>
      (\<forall>x < length heads. indices st ! x \<noteq> - 1 \<longrightarrow>
         0 \<le> indices st ! x \<and> indices st ! x < int (index_ctr st) \<and> lowlinks st ! x \<le> indices st ! x) \<and>
      (\<forall>x < length heads. onstack st ! x = (x \<in> set (stack st))) \<and>
      (\<forall>x \<in> set (stack st). x < length heads \<and> indices st ! x \<noteq> - 1) \<and>
      distinct (stack st) \<and>
      (\<forall>x < length heads. \<forall>y < length heads.
         indices st ! x \<noteq> - 1 \<and> x \<notin> set (stack st) \<and> head_of heads y = x \<longrightarrow>
         indices st ! y \<noteq> - 1 \<and> y \<notin> set (stack st)))"

text \<open>What a call leaves alone: the counter does not decrease, a visited token keeps its
  index, and keeps its lowlink unless it is in \<open>X\<close>.\<close>

definition tarjan_frame :: "int list \<Rightarrow> nat set \<Rightarrow> tarjan_state \<Rightarrow> tarjan_state \<Rightarrow> bool" where
  "tarjan_frame heads X st st' =
     (index_ctr st \<le> index_ctr st' \<and>
      (\<forall>x < length heads. indices st ! x \<noteq> - 1 \<longrightarrow>
         indices st' ! x = indices st ! x \<and> (x \<notin> X \<longrightarrow> lowlinks st' ! x = lowlinks st ! x)))"

lemma tarjan_frame_refl [simp]: "tarjan_frame heads X st st"
  by (simp add: tarjan_frame_def)

lemma tarjan_frame_trans:
  "tarjan_frame heads X st st' \<Longrightarrow> tarjan_frame heads X st' st'' \<Longrightarrow> tarjan_frame heads X st st''"
  unfolding tarjan_frame_def by (metis le_trans)

lemma head_of_less: "valid_heads heads \<Longrightarrow> i < length heads \<Longrightarrow> head_of heads i < length heads"
  unfolding valid_heads_def head_of_def by (metis nat_less_iff)

lemma head_of_funpow_less:
  "valid_heads heads \<Longrightarrow> i < length heads \<Longrightarrow> (head_of heads ^^ k) i < length heads"
  by (induction k) (simp_all add: head_of_less)

lemma desc_self: "i < length heads \<Longrightarrow> i \<in> desc heads i"
  unfolding desc_def by (auto intro: exI [of _ 0])

lemma desc_less: "x \<in> desc heads i \<Longrightarrow> x < length heads"
  by (simp add: desc_def)

lemma desc_step: "x \<in> desc heads j \<Longrightarrow> head_of heads j = i \<Longrightarrow> x \<in> desc heads i"
proof -
  assume "x \<in> desc heads j" "head_of heads j = i"
  then obtain k where "x < length heads" "(head_of heads ^^ k) x = j"
    by (auto simp: desc_def)
  then have "(head_of heads ^^ Suc k) x = i"
    using \<open>head_of heads j = i\<close> by simp
  with \<open>x < length heads\<close> show ?thesis
    unfolding desc_def by blast
qed

lemma desc_trans: "x \<in> desc heads j \<Longrightarrow> j \<in> desc heads i \<Longrightarrow> x \<in> desc heads i"
proof -
  assume "x \<in> desc heads j" "j \<in> desc heads i"
  then obtain k l where "x < length heads" "(head_of heads ^^ k) x = j" "(head_of heads ^^ l) j = i"
    by (auto simp: desc_def)
  then have "(head_of heads ^^ (l + k)) x = i"
    by (simp add: funpow_add)
  with \<open>x < length heads\<close> show ?thesis
    unfolding desc_def by blast
qed

lemma desc_cases:
  assumes "x \<in> desc heads i" "x \<noteq> i"
  shows "\<exists>j. j \<noteq> i \<and> head_of heads j = i \<and> x \<in> desc heads j"
proof -
  from assms obtain k where x: "x < length heads" and k: "(head_of heads ^^ k) x = i"
    by (auto simp: desc_def)
  define m where "m = (LEAST k. (head_of heads ^^ k) x = i)"
  have m: "(head_of heads ^^ m) x = i"
    unfolding m_def using k by (rule LeastI)
  with assms(2) have "m \<noteq> 0"
    by (cases m) auto
  then obtain m' where m': "m = Suc m'"
    by (cases m) auto
  let ?j = "(head_of heads ^^ m') x"
  have "?j \<noteq> i"
  proof
    assume "?j = i"
    then have "m \<le> m'"
      unfolding m_def by (rule Least_le)
    with m' show False
      by simp
  qed
  moreover have "head_of heads ?j = i"
    using m m' by simp
  moreover have "x \<in> desc heads ?j"
    using x unfolding desc_def by blast
  ultimately show ?thesis
    by blast
qed

lemma mem_dependents: "j \<in> set (dependents heads i) \<longleftrightarrow> j < length heads \<and> heads ! j = int i"
  by (auto simp: dependents_def)

lemma mem_dependents_head:
  "valid_heads heads \<Longrightarrow> j \<in> set (dependents heads i) \<longleftrightarrow> j < length heads \<and> head_of heads j = i"
  unfolding mem_dependents head_of_def valid_heads_def by auto

lemma distinct_dependents [simp]: "distinct (dependents heads i)"
  by (simp add: dependents_def)

text \<open>The descendants of a token that is visited and off the stack are visited and off the
  stack.\<close>

lemma tarjan_inv_done_desc:
  assumes "tarjan_inv heads st" "valid_heads heads"
    and "x \<in> desc heads j" "j < length heads" "indices st ! j \<noteq> - 1" "j \<notin> set (stack st)"
  shows "indices st ! x \<noteq> - 1 \<and> x \<notin> set (stack st)"
proof -
  from assms(3) obtain k where x: "x < length heads" and k: "(head_of heads ^^ k) x = j"
    by (auto simp: desc_def)
  have range: "(head_of heads ^^ l) x < length heads" for l
    using assms(2) x by (rule head_of_funpow_less)
  have "indices st ! ((head_of heads ^^ (k - l)) x) \<noteq> - 1 \<and> (head_of heads ^^ (k - l)) x \<notin> set (stack st)"
    if "l \<le> k" for l
    using that
  proof (induction l)
    case 0
    then show ?case using k assms(5,6) by simp
  next
    case (Suc l)
    let ?y = "(head_of heads ^^ (k - Suc l)) x"
    from Suc.prems have "head_of heads ?y = (head_of heads ^^ (k - l)) x"
      by (metis Suc_diff_Suc Suc_le_lessD funpow.simps(2) o_apply)
    with Suc assms(1) range [of "k - Suc l"] range [of "k - l"] show ?case
      unfolding tarjan_inv_def by (metis Suc_leD)
  qed
  from this [of k] show ?thesis
    by simp
qed

definition visited :: "tarjan_state \<Rightarrow> nat \<Rightarrow> bool" where
  "visited st x = (indices st ! x \<noteq> - 1)"

definition tree_post :: "int list \<Rightarrow> nat \<Rightarrow> tarjan_state \<Rightarrow> tarjan_state \<Rightarrow> bool" where
  "tree_post heads i st st' =
     (tarjan_inv heads st' \<and> stack st' = stack st \<and> cycles st' = cycles st \<and>
      tarjan_frame heads {} st st' \<and>
      (\<forall>x < length heads. visited st' x = (visited st x \<or> x \<in> desc heads i)) \<and>
      lowlinks st' ! i = int (index_ctr st) \<and> indices st' ! i = int (index_ctr st))"

definition loop_post :: "int list \<Rightarrow> nat \<Rightarrow> nat list \<Rightarrow> tarjan_state \<Rightarrow> tarjan_state \<Rightarrow> bool" where
  "loop_post heads i js st st' =
     (tarjan_inv heads st' \<and> stack st' = stack st \<and> cycles st' = cycles st \<and>
      tarjan_frame heads {} st st' \<and>
      (\<forall>x < length heads. visited st' x = (visited st x \<or> (\<exists>j \<in> set js. j \<noteq> i \<and> x \<in> desc heads j))))"

lemma count_true_single: "i < n \<Longrightarrow> count_true ((replicate n False)[i := True]) = 1"
  by (simp add: count_true_def upd_conv_take_nth_drop)

lemma tarjan_inv_stack_visited:
  "tarjan_inv heads st \<Longrightarrow> x \<in> set (stack st) \<Longrightarrow> x < length heads \<and> visited st x"
  by (simp add: tarjan_inv_def visited_def)

lemma tarjan_invI:
  assumes "length (indices st) = length heads" "length (lowlinks st) = length heads"
    "length (onstack st) = length heads"
    "\<And>x. x < length heads \<Longrightarrow> visited st x \<Longrightarrow>
       0 \<le> indices st ! x \<and> indices st ! x < int (index_ctr st) \<and> lowlinks st ! x \<le> indices st ! x"
    "\<And>x. x < length heads \<Longrightarrow> onstack st ! x = (x \<in> set (stack st))"
    "\<And>x. x \<in> set (stack st) \<Longrightarrow> x < length heads \<and> visited st x"
    "distinct (stack st)"
    "\<And>x y. x < length heads \<Longrightarrow> y < length heads \<Longrightarrow> visited st x \<Longrightarrow> x \<notin> set (stack st) \<Longrightarrow>
       head_of heads y = x \<Longrightarrow> visited st y \<and> y \<notin> set (stack st)"
  shows "tarjan_inv heads st"
  unfolding tarjan_inv_def visited_def [symmetric]
  using assms by blast

lemma tarjan_invD:
  assumes "tarjan_inv heads st"
  shows "length (indices st) = length heads" "length (lowlinks st) = length heads"
    "length (onstack st) = length heads"
    "\<And>x. x < length heads \<Longrightarrow> visited st x \<Longrightarrow>
       0 \<le> indices st ! x \<and> indices st ! x < int (index_ctr st) \<and> lowlinks st ! x \<le> indices st ! x"
    "\<And>x. x < length heads \<Longrightarrow> onstack st ! x = (x \<in> set (stack st))"
    "\<And>x. x \<in> set (stack st) \<Longrightarrow> x < length heads \<and> visited st x"
    "distinct (stack st)"
    "\<And>x y. x < length heads \<Longrightarrow> y < length heads \<Longrightarrow> visited st x \<Longrightarrow> x \<notin> set (stack st) \<Longrightarrow>
       head_of heads y = x \<Longrightarrow> visited st y \<and> y \<notin> set (stack st)"
  using assms unfolding tarjan_inv_def visited_def [symmetric] by blast+

lemma visited_visit: "i < length (indices st) \<Longrightarrow> visited (visit i st) x = (visited st x \<or> x = i)"
  by (auto simp: visited_def nth_list_update)

lemma visit_inv:
  assumes inv: "tarjan_inv heads st" and i: "i < length heads" and nv: "\<not> visited st i"
  shows "tarjan_inv heads (visit i st)"
proof (rule tarjan_invI)
  note D = tarjan_invD [OF inv]
  have li: "i < length (indices st)"
    using D(1) i by simp
  have notin: "i \<notin> set (stack st)"
    using D(6) nv by blast
  show "length (indices (visit i st)) = length heads" "length (lowlinks (visit i st)) = length heads"
    "length (onstack (visit i st)) = length heads"
    using D(1-3) by simp_all
  show "0 \<le> indices (visit i st) ! x \<and> indices (visit i st) ! x < int (index_ctr (visit i st)) \<and>
        lowlinks (visit i st) ! x \<le> indices (visit i st) ! x"
    if "x < length heads" "visited (visit i st) x" for x
  proof (cases "x = i")
    case True
    then show ?thesis using D(1,2) i by simp
  next
    case False
    with that have "visited st x"
      by (simp add: visited_visit li)
    from D(4) [OF that(1) this] False show ?thesis
      by simp
  qed
  show "onstack (visit i st) ! x = (x \<in> set (stack (visit i st)))" if "x < length heads" for x
    using D(5) [OF that] D(3) that by (cases "x = i") simp_all
  show "x < length heads \<and> visited (visit i st) x" if "x \<in> set (stack (visit i st))" for x
    using that D(6) [of x] i by (auto simp: visited_visit li)
  show "distinct (stack (visit i st))"
    using D(7) notin by simp
  show "visited (visit i st) y \<and> y \<notin> set (stack (visit i st))"
    if "x < length heads" "y < length heads" "visited (visit i st) x" "x \<notin> set (stack (visit i st))"
      "head_of heads y = x" for x y
  proof -
    from that have "x \<noteq> i" "visited st x" "x \<notin> set (stack st)"
      by (auto simp: visited_visit li)
    from D(8) [OF that(1,2) this(2,3) that(5)] have "visited st y" "y \<notin> set (stack st)"
      by simp_all
    with nv show ?thesis
      by (auto simp: visited_visit li)
  qed
qed

lemma tarjan_frame_visited:
  "tarjan_frame heads X st st' \<Longrightarrow> x < length heads \<Longrightarrow> visited st x \<Longrightarrow> visited st' x"
  by (simp add: tarjan_frame_def visited_def)

lemma tarjan_frame_visit:
  assumes "\<not> visited st i"
  shows "tarjan_frame heads X st (visit i st)"
proof -
  have "i \<noteq> x" if "indices st ! x \<noteq> - 1" for x
    using that assms by (auto simp: visited_def)
  then show ?thesis
    by (simp add: tarjan_frame_def)
qed

lemma lowlinks_update_id: "st\<lparr>lowlinks := (lowlinks st)[i := lowlinks st ! i]\<rparr> = st"
  by simp

lemma finish_single:
  assumes "stack st2 = i # stk" "lowlinks st2 ! i = indices st2 ! i" "i < length (indices st2)"
  shows "finish i st2 = st2\<lparr>stack := stk, onstack := (onstack st2)[i := False]\<rparr>"
  using assms by (simp add: finish_def count_true_single)

lemma strong_connect_tree:
  "valid_heads heads \<Longrightarrow> tarjan_inv heads st \<Longrightarrow> i < length heads \<Longrightarrow> \<not> visited st i \<Longrightarrow>
   set (stack st) \<inter> desc heads i = {} \<Longrightarrow> no_big_cycle heads i \<Longrightarrow>
   tree_post heads i st (strong_connect heads i st)"
  and sc_dependents_tree:
  "valid_heads heads \<Longrightarrow> tarjan_inv heads st \<Longrightarrow> i < length heads \<Longrightarrow> visited st i \<Longrightarrow>
   i \<in> set (stack st) \<Longrightarrow> set js \<subseteq> set (dependents heads i) \<Longrightarrow>
   (\<forall>j \<in> set js. j \<noteq> i \<longrightarrow> set (stack st) \<inter> desc heads j = {} \<and> no_big_cycle heads j) \<Longrightarrow>
   loop_post heads i js st (sc_dependents heads i js st)"
proof (induction heads i st and heads i js st rule: strong_connect_sc_dependents.induct)
  case (1 heads i st)
  note valid = \<open>valid_heads heads\<close> and inv = \<open>tarjan_inv heads st\<close> and i = \<open>i < length heads\<close>
    and nv = \<open>\<not> visited st i\<close> and disj = \<open>set (stack st) \<inter> desc heads i = {}\<close>
    and nbc = \<open>no_big_cycle heads i\<close>
  note D = tarjan_invD [OF inv]
  define st1 where "st1 = visit i st"
  define st2 where "st2 = sc_dependents heads i (dependents heads i) st1"
  have li: "i < length (indices st)"
    using D(1) i by simp
  have inv1: "tarjan_inv heads st1"
    unfolding st1_def using inv i nv by (rule visit_inv)
  have dep_pre: "set (stack st1) \<inter> desc heads j = {} \<and> no_big_cycle heads j"
    if j: "j \<in> set (dependents heads i)" and ne: "j \<noteq> i" for j
  proof -
    from j valid have jn: "j < length heads" and hj: "head_of heads j = i"
      by (simp_all add: mem_dependents_head)
    have sub: "desc heads j \<subseteq> desc heads i"
      using desc_step [OF _ hj] by blast
    have cyc_absurd: False if "(head_of heads ^^ k) i = j" for k
    proof -
      from that hj have "(head_of heads ^^ Suc k) i = i"
        by simp
      with nbc have fp: "head_of heads i = i"
        unfolding no_big_cycle_def by blast
      have "(head_of heads ^^ l) i = i" for l
        by (induction l) (simp_all add: fp)
      with that ne show False
        by simp
    qed
    have "i \<notin> desc heads j"
      using cyc_absurd by (auto simp: desc_def)
    moreover have "no_big_cycle heads j"
      unfolding no_big_cycle_def
    proof (intro allI impI)
      fix k :: nat
      assume "0 < k" "(head_of heads ^^ k) j = j"
      then obtain k' where "k = Suc k'"
        by (cases k) auto
      with \<open>(head_of heads ^^ k) j = j\<close> hj have "(head_of heads ^^ k') i = j"
        by (simp add: funpow_swap1)
      with cyc_absurd show "head_of heads j = j"
        by blast
    qed
    ultimately show ?thesis
      using disj sub by (auto simp: st1_def)
  qed
  have "loop_post heads i (dependents heads i) st1 st2"
    unfolding st2_def st1_def
    apply (rule "1.IH" [OF refl refl refl, folded visit_def dependents_def])
    using valid inv1 i dep_pre by (auto simp: st1_def visited_visit li)
  then have inv2: "tarjan_inv heads st2" and stack2: "stack st2 = i # stack st"
    and cycles2: "cycles st2 = cycles st" and frame2: "tarjan_frame heads {} st1 st2"
    and vis2: "\<And>x. x < length heads \<Longrightarrow>
        visited st2 x = (visited st1 x \<or> (\<exists>j \<in> set (dependents heads i). j \<noteq> i \<and> x \<in> desc heads j))"
    by (simp_all add: loop_post_def st1_def)
  note D2 = tarjan_invD [OF inv2]
  have v1i: "visited st1 i"
    by (simp add: st1_def visited_visit li)
  from frame2 i v1i have ind2: "indices st2 ! i = int (index_ctr st)"
    and low2: "lowlinks st2 ! i = int (index_ctr st)"
    using li D(2) by (simp_all add: tarjan_frame_def visited_def st1_def)
  define st' where "st' = st2\<lparr>stack := stack st, onstack := (onstack st2)[i := False]\<rparr>"
  have res: "strong_connect heads i st = st'"
    unfolding strong_connect_unfold st'_def st1_def [symmetric] st2_def [symmetric]
    using stack2 ind2 low2 D2(1) i by (intro finish_single) simp_all
  have notin: "i \<notin> set (stack st)"
    using D(6) nv by blast
  have vis': "visited st' x = (visited st x \<or> x \<in> desc heads i)" if x: "x < length heads" for x
  proof -
    have "visited st' x = visited st2 x"
      by (simp add: st'_def visited_def)
    also have "\<dots> = ((visited st x \<or> x = i) \<or> (\<exists>j \<in> set (dependents heads i). j \<noteq> i \<and> x \<in> desc heads j))"
      using vis2 [OF x] by (simp add: st1_def visited_visit li)
    also have "\<dots> = (visited st x \<or> x \<in> desc heads i)"
    proof -
      have "x \<in> desc heads i" if "j \<in> set (dependents heads i)" "x \<in> desc heads j" for j
        using that valid desc_step by (auto simp: mem_dependents_head)
      moreover have "\<exists>j \<in> set (dependents heads i). j \<noteq> i \<and> x \<in> desc heads j"
        if "x \<in> desc heads i" "x \<noteq> i"
      proof -
        from desc_cases [OF that] obtain j where j: "j \<noteq> i" "head_of heads j = i" "x \<in> desc heads j"
          by blast
        have "j < length heads"
        proof -
          from j(3) obtain k where "(head_of heads ^^ k) x = j"
            by (auto simp: desc_def)
          with head_of_funpow_less [OF valid x, of k] show ?thesis
            by simp
        qed
        with j valid show ?thesis
          by (auto simp: mem_dependents_head)
      qed
      ultimately show ?thesis
        using desc_self [OF i] by blast
    qed
    finally show ?thesis .
  qed
  have inv': "tarjan_inv heads st'"
  proof (rule tarjan_invI)
    show "length (indices st') = length heads" "length (lowlinks st') = length heads"
      "length (onstack st') = length heads"
      using D2(1-3) by (simp_all add: st'_def)
    show "0 \<le> indices st' ! x \<and> indices st' ! x < int (index_ctr st') \<and> lowlinks st' ! x \<le> indices st' ! x"
      if "x < length heads" "visited st' x" for x
      using D2(4) [of x] that by (simp add: st'_def visited_def)
    show "onstack st' ! x = (x \<in> set (stack st'))" if "x < length heads" for x
      using D2(5) [OF that] D2(3) that stack2 notin by (cases "x = i") (simp_all add: st'_def)
    show "x < length heads \<and> visited st' x" if "x \<in> set (stack st')" for x
      using D2(6) [of x] that stack2 by (simp add: st'_def visited_def)
    show "distinct (stack st')"
      using D(7) by (simp add: st'_def)
    show "visited st' y \<and> y \<notin> set (stack st')"
      if xy: "x < length heads" "y < length heads" "visited st' x" "x \<notin> set (stack st')"
        "head_of heads y = x" for x y
    proof (cases "x = i")
      case True
      with xy have "y \<in> desc heads i"
        using desc_step [OF desc_self [OF xy(2)]] by blast
      with vis' [OF xy(2)] disj show ?thesis
        by (auto simp: st'_def)
    next
      case False
      with xy have "visited st2 x" "x \<notin> set (stack st2)"
        by (simp_all add: st'_def visited_def stack2)
      from D2(8) [OF xy(1,2) this xy(5)] show ?thesis
        by (simp add: st'_def visited_def stack2)
    qed
  qed
  have frame': "tarjan_frame heads {} st st'"
  proof -
    have "tarjan_frame heads {} st st2"
      using tarjan_frame_visit [OF nv] frame2 unfolding st1_def by (rule tarjan_frame_trans)
    then show ?thesis
      by (simp add: tarjan_frame_def st'_def)
  qed
  show ?case
    unfolding res tree_post_def
    using inv' frame' vis' ind2 low2 cycles2 by (simp add: st'_def)
next
  case (2 heads i st)
  then show ?case
    by (simp add: loop_post_def)
next
  case (3 heads i j js st)
  note valid = \<open>valid_heads heads\<close> and inv = \<open>tarjan_inv heads st\<close> and i = \<open>i < length heads\<close>
    and vi = \<open>visited st i\<close> and ist = \<open>i \<in> set (stack st)\<close>
    and sub = \<open>set (j # js) \<subseteq> set (dependents heads i)\<close>
    and pre = \<open>\<forall>j \<in> set (j # js). j \<noteq> i \<longrightarrow> set (stack st) \<inter> desc heads j = {} \<and> no_big_cycle heads j\<close>
  note D = tarjan_invD [OF inv]
  from sub valid have jn: "j < length heads" and hj: "head_of heads j = i"
    by (simp_all add: mem_dependents_head)
  have jl: "j < length (indices st)"
    using D(1) jn by simp
  have sub': "set js \<subseteq> set (dependents heads i)"
    using sub by simp
  show ?case
  proof (cases "visited st j")
    case False
    then have c: "j < length (indices st) \<and> indices st ! j = - 1"
      using jl by (simp add: visited_def)
    from False vi have ne: "j \<noteq> i"
      by blast
    define st1 where "st1 = strong_connect heads j st"
    have "tree_post heads j st st1"
      unfolding st1_def using pre ne by (intro "3.IH"(1) [OF c] valid inv jn False) simp_all
    then have inv1: "tarjan_inv heads st1" and stack1: "stack st1 = stack st"
      and cycles1: "cycles st1 = cycles st" and frame1: "tarjan_frame heads {} st st1"
      and vis1: "\<And>x. x < length heads \<Longrightarrow> visited st1 x = (visited st x \<or> x \<in> desc heads j)"
      and low1: "lowlinks st1 ! j = int (index_ctr st)"
      by (simp_all add: tree_post_def)
    have "lowlinks st1 ! i = lowlinks st ! i"
      using frame1 i vi by (simp add: tarjan_frame_def visited_def)
    moreover have "lowlinks st ! i < int (index_ctr st)"
      using D(4) [OF i vi] by simp
    ultimately have m: "min (lowlinks st1 ! i) (lowlinks st1 ! j) = lowlinks st1 ! i"
      using low1 by simp
    have eq: "sc_dependents heads i (j # js) st = sc_dependents heads i js st1"
      using c by (simp add: sc_dependents.simps(2) Let_def st1_def [symmetric] m)
    have "loop_post heads i js st1 (sc_dependents heads i js st1)"
      using "3.IH"(2) [OF c refl, folded st1_def, unfolded m lowlinks_update_id]
        valid inv1 i tarjan_frame_visited [OF frame1 i vi] ist sub' pre
      by (simp add: stack1)
    then show ?thesis
      unfolding eq loop_post_def
      using stack1 cycles1 tarjan_frame_trans [OF frame1] vis1 ne by auto
  next
    case True
    then have c: "\<not> (j < length (indices st) \<and> indices st ! j = - 1)"
      by (simp add: visited_def)
    have done_desc: "visited st x" if "x \<in> desc heads j" "j \<notin> set (stack st)" for x
      using tarjan_inv_done_desc [OF inv valid that(1) jn _ that(2)] True
      by (simp add: visited_def)
    show ?thesis
    proof (cases "onstack st ! j")
      case os: True
      then have "j \<in> set (stack st)"
        using D(5) [OF jn] by simp
      with pre desc_self [OF jn] have ji: "j = i"
        by auto
      have m: "min (lowlinks st ! i) (indices st ! i) = lowlinks st ! i"
        using D(4) [OF i vi] by simp
      have eq: "sc_dependents heads i (j # js) st = sc_dependents heads i js st"
        using vi os by (simp add: sc_dependents.simps(2) ji m visited_def)
      have "loop_post heads i js st (sc_dependents heads i js st)"
        using "3.IH"(3) [OF c os, unfolded ji m lowlinks_update_id] valid inv i vi ist sub' pre
        by simp
      then show ?thesis
        unfolding eq loop_post_def using ji by auto
    next
      case os: False
      then have nst: "j \<notin> set (stack st)"
        using D(5) [OF jn] by simp
      have eq: "sc_dependents heads i (j # js) st = sc_dependents heads i js st"
        using True os by (simp add: sc_dependents.simps(2) visited_def)
      have "loop_post heads i js st (sc_dependents heads i js st)"
        using "3.IH"(4) [OF c os] valid inv i vi ist sub' pre
        by simp
      then show ?thesis
        unfolding eq loop_post_def using done_desc [OF _ nst] by auto
    qed
  qed
qed

definition is_cycle_list :: "int list \<Rightarrow> nat list \<Rightarrow> bool" where
  "is_cycle_list heads cyc =
     (2 \<le> length cyc \<and> distinct cyc \<and> (\<forall>x \<in> set cyc. x < length heads) \<and>
      (\<forall>t. Suc t < length cyc \<longrightarrow> head_of heads (cyc ! Suc t) = cyc ! t) \<and>
      head_of heads (cyc ! 0) = last cyc)"

definition nxt :: "nat list \<Rightarrow> nat \<Rightarrow> nat" where
  "nxt cyc t = (if Suc t < length cyc then cyc ! Suc t else cyc ! 0)"

lemma cycle_nonempty: "is_cycle_list heads cyc \<Longrightarrow> cyc \<noteq> [] \<and> 0 < length cyc \<and> 1 < length cyc"
  by (auto simp: is_cycle_list_def)

lemma cycle_nxt_head:
  assumes "is_cycle_list heads cyc" "t < length cyc"
  shows "head_of heads (nxt cyc t) = cyc ! t"
proof (cases "Suc t < length cyc")
  case True
  with assms show ?thesis by (simp add: is_cycle_list_def nxt_def)
next
  case False
  with assms have "t = length cyc - 1" by simp
  with assms False cycle_nonempty [OF assms(1)] show ?thesis
    by (simp add: is_cycle_list_def nxt_def last_conv_nth)
qed

lemma cycle_nxt_mem: "is_cycle_list heads cyc \<Longrightarrow> nxt cyc t \<in> set cyc"
  using cycle_nonempty [of heads cyc] by (auto simp: nxt_def)

lemma cycle_mem_less: "is_cycle_list heads cyc \<Longrightarrow> x \<in> set cyc \<Longrightarrow> x < length heads"
  by (simp add: is_cycle_list_def)

lemma cycle_head_mem:
  assumes "is_cycle_list heads cyc" "x \<in> set cyc"
  shows "head_of heads x \<in> set cyc"
proof -
  from assms(2) obtain s where s: "s < length cyc" "x = cyc ! s"
    by (auto simp: in_set_conv_nth)
  show ?thesis
  proof (cases s)
    case 0
    with assms s show ?thesis
      by (auto simp: is_cycle_list_def last_in_set)
  next
    case (Suc s')
    with assms s have "head_of heads x = cyc ! s'" "s' < length cyc"
      by (simp_all add: is_cycle_list_def)
    then show ?thesis by simp
  qed
qed

lemma cycle_funpow_mem:
  "is_cycle_list heads cyc \<Longrightarrow> x \<in> set cyc \<Longrightarrow> (head_of heads ^^ k) x \<in> set cyc"
  by (induction k) (simp_all add: cycle_head_mem)

lemma cycle_dependent_off:
  assumes c: "is_cycle_list heads cyc" and t: "t < length cyc"
    and j: "head_of heads j = cyc ! t" "j \<noteq> nxt cyc t"
  shows "j \<notin> set cyc"
proof
  assume "j \<in> set cyc"
  then obtain s where s: "s < length cyc" "j = cyc ! s"
    by (auto simp: in_set_conv_nth)
  from c have d: "distinct cyc" and len: "2 \<le> length cyc"
    by (simp_all add: is_cycle_list_def)
  show False
  proof (cases s)
    case 0
    with c s j have "cyc ! (length cyc - 1) = cyc ! t"
      by (simp add: is_cycle_list_def last_conv_nth)
    with d t len have "t = length cyc - 1"
      by (simp add: nth_eq_iff_index_eq)
    with j s 0 show False
      by (simp add: nxt_def)
  next
    case (Suc s')
    with c s j have "cyc ! s' = cyc ! t"
      by (simp add: is_cycle_list_def)
    with d t s Suc have "s' = t"
      by (simp add: nth_eq_iff_index_eq)
    with j s Suc show False
      by (simp add: nxt_def)
  qed
qed

lemma cycle_dependent_desc:
  assumes c: "is_cycle_list heads cyc" and t: "t < length cyc"
    and j: "head_of heads j = cyc ! t" "j \<noteq> nxt cyc t"
  shows "set cyc \<inter> desc heads j = {}"
proof -
  have False if "x \<in> set cyc" "x \<in> desc heads j" for x
  proof -
    from that(2) obtain k where "(head_of heads ^^ k) x = j"
      by (auto simp: desc_def)
    with cycle_funpow_mem [OF c that(1), of k] cycle_dependent_off [OF c t j] show False
      by simp
  qed
  then show ?thesis by blast
qed

lemma cycle_dependent_no_big_cycle:
  assumes c: "is_cycle_list heads cyc" and t: "t < length cyc"
    and j: "head_of heads j = cyc ! t" "j \<noteq> nxt cyc t"
  shows "no_big_cycle heads j"
  unfolding no_big_cycle_def
proof (intro allI impI)
  fix k :: nat
  assume "0 < k" and k: "(head_of heads ^^ k) j = j"
  then obtain k' where "k = Suc k'"
    by (cases k) auto
  with k j have "(head_of heads ^^ k') (cyc ! t) = j"
    by (simp add: funpow_swap1)
  with cycle_funpow_mem [OF c nth_mem [OF t], of k'] cycle_dependent_off [OF c t j]
  show "head_of heads j = j"
    by simp
qed

lemma cycle_funpow_down:
  assumes c: "is_cycle_list heads cyc" and t: "t < length cyc"
  shows "k \<le> t \<Longrightarrow> (head_of heads ^^ k) (cyc ! t) = cyc ! (t - k)"
proof (induction k)
  case 0
  then show ?case by simp
next
  case (Suc k)
  then have "(head_of heads ^^ Suc k) (cyc ! t) = head_of heads (cyc ! (t - k))"
    by simp
  also have "\<dots> = head_of heads (cyc ! Suc (t - Suc k))"
    using Suc.prems by (simp add: Suc_diff_Suc)
  also have "\<dots> = cyc ! (t - Suc k)"
    using c t Suc.prems by (simp add: is_cycle_list_def)
  finally show ?case .
qed

lemma cycle_mem_desc0:
  assumes c: "is_cycle_list heads cyc" and t: "t < length cyc"
  shows "cyc ! t \<in> desc heads (cyc ! 0)"
  using cycle_funpow_down [OF c t, of t] cycle_mem_less [OF c nth_mem [OF t]]
  unfolding desc_def by auto

lemma pop_cycle_all:
  "distinct (xs @ [i]) \<Longrightarrow> length os = n \<Longrightarrow> length cy = n \<Longrightarrow> \<forall>x \<in> set (xs @ [i]). x < n \<Longrightarrow>
   pop_cycle i (xs @ i # rest) os cy =
     (rest, map (\<lambda>x. os ! x \<and> x \<notin> set (xs @ [i])) [0..<n], map (\<lambda>x. cy ! x \<or> x \<in> set (xs @ [i])) [0..<n])"
proof (induction xs arbitrary: os cy)
  case Nil
  then show ?case
    by (auto intro!: nth_equalityI simp: nth_list_update split: if_splits)
next
  case (Cons a xs)
  from Cons.prems have ne: "a \<noteq> i"
    by auto
  have "pop_cycle i ((a # xs) @ i # rest) os cy = pop_cycle i (xs @ i # rest) (os[a := False]) (cy[a := True])"
    using ne by simp
  also have "\<dots> = (rest, map (\<lambda>x. os[a := False] ! x \<and> x \<notin> set (xs @ [i])) [0..<n],
                     map (\<lambda>x. cy[a := True] ! x \<or> x \<in> set (xs @ [i])) [0..<n])"
    using Cons.prems by (intro Cons.IH) simp_all
  also have "\<dots> = (rest, map (\<lambda>x. os ! x \<and> x \<notin> set ((a # xs) @ [i])) [0..<n],
                     map (\<lambda>x. cy ! x \<or> x \<in> set ((a # xs) @ [i])) [0..<n])"
    using Cons.prems by (auto simp: nth_list_update split: if_splits)
  finally show ?case .
qed

definition cyc_done :: "int list \<Rightarrow> nat list \<Rightarrow> int \<Rightarrow> nat \<Rightarrow> tarjan_state \<Rightarrow> bool" where
  "cyc_done heads cyc r t st =
     (\<forall>s. t \<le> s \<and> s < length cyc \<longrightarrow>
        visited st (cyc ! s) \<and> lowlinks st ! (cyc ! s) = r \<and>
        (\<forall>y < length heads. head_of heads y = cyc ! s \<longrightarrow> visited st y))"

definition cyc_post :: "int list \<Rightarrow> nat list \<Rightarrow> int \<Rightarrow> nat \<Rightarrow> tarjan_state \<Rightarrow> tarjan_state \<Rightarrow> bool" where
  "cyc_post heads cyc r t st st' =
     (tarjan_inv heads st' \<and> stack st' = rev cyc \<and> cycles st' = cycles st \<and>
      tarjan_frame heads {} st st' \<and> cyc_done heads cyc r t st' \<and>
      (\<forall>x < length heads. visited st' x \<longrightarrow> visited st x \<or> x \<in> desc heads (cyc ! 0)))"

definition cyc_loop_pre :: "int list \<Rightarrow> nat list \<Rightarrow> int \<Rightarrow> nat \<Rightarrow> nat list \<Rightarrow> tarjan_state \<Rightarrow> bool" where
  "cyc_loop_pre heads cyc r t js st =
     (if nxt cyc t \<in> set js
      then stack st = rev (take (Suc t) cyc) \<and> (\<forall>s. t < s \<and> s < length cyc \<longrightarrow> \<not> visited st (cyc ! s))
      else stack st = rev cyc \<and> lowlinks st ! (cyc ! t) = r \<and> cyc_done heads cyc r (Suc t) st)"

definition cyc_loop_post ::
  "int list \<Rightarrow> nat list \<Rightarrow> int \<Rightarrow> nat \<Rightarrow> nat list \<Rightarrow> tarjan_state \<Rightarrow> tarjan_state \<Rightarrow> bool" where
  "cyc_loop_post heads cyc r t js st st' =
     (tarjan_inv heads st' \<and> stack st' = rev cyc \<and> cycles st' = cycles st \<and>
      tarjan_frame heads {cyc ! t} st st' \<and> lowlinks st' ! (cyc ! t) = r \<and>
      cyc_done heads cyc r (Suc t) st' \<and> (\<forall>y \<in> set js. visited st' y) \<and>
      (\<forall>x < length heads. visited st' x \<longrightarrow> visited st x \<or> x \<in> desc heads (cyc ! 0)))"

lemma tarjan_frame_mono: "tarjan_frame heads X st st' \<Longrightarrow> X \<subseteq> Y \<Longrightarrow> tarjan_frame heads Y st st'"
  unfolding tarjan_frame_def by blast

lemma visited_lowlinks_update [simp]: "visited (st\<lparr>lowlinks := l\<rparr>) x = visited st x"
  by (simp add: visited_def)

lemma tarjan_frame_lowlinks: "tarjan_frame heads {i} st (st\<lparr>lowlinks := (lowlinks st)[i := v]\<rparr>)"
  by (simp add: tarjan_frame_def)

lemma tarjan_inv_lowlinks:
  assumes inv: "tarjan_inv heads st" and v: "v \<le> indices st ! i"
  shows "tarjan_inv heads (st\<lparr>lowlinks := (lowlinks st)[i := v]\<rparr>)"
proof (rule tarjan_invI)
  note D = tarjan_invD [OF inv]
  let ?st = "st\<lparr>lowlinks := (lowlinks st)[i := v]\<rparr>"
  show "length (indices ?st) = length heads" "length (lowlinks ?st) = length heads"
    "length (onstack ?st) = length heads"
    using D(1-3) by simp_all
  show "0 \<le> indices ?st ! x \<and> indices ?st ! x < int (index_ctr ?st) \<and> lowlinks ?st ! x \<le> indices ?st ! x"
    if "x < length heads" "visited ?st x" for x
    using D(4) [of x] D(2) that v by (cases "x = i") simp_all
  show "onstack ?st ! x = (x \<in> set (stack ?st))" if "x < length heads" for x
    using D(5) [OF that] by simp
  show "x < length heads \<and> visited ?st x" if "x \<in> set (stack ?st)" for x
    using D(6) [of x] that by simp
  show "distinct (stack ?st)"
    using D(7) by simp
  show "visited ?st y \<and> y \<notin> set (stack ?st)"
    if "x < length heads" "y < length heads" "visited ?st x" "x \<notin> set (stack ?st)" "head_of heads y = x"
    for x y
    using D(8) [of x y] that by simp
qed

lemma cyc_done_frame:
  assumes "cyc_done heads cyc r t st" "tarjan_frame heads X st st'"
    and "\<And>s. t \<le> s \<Longrightarrow> s < length cyc \<Longrightarrow> cyc ! s \<notin> X"
    and "\<And>x. x \<in> set cyc \<Longrightarrow> x < length heads"
  shows "cyc_done heads cyc r t st'"
  unfolding cyc_done_def
proof (intro allI impI)
  fix s assume s: "t \<le> s \<and> s < length cyc"
  with assms(1) have a: "visited st (cyc ! s)" "lowlinks st ! (cyc ! s) = r"
    "\<And>y. y < length heads \<Longrightarrow> head_of heads y = cyc ! s \<Longrightarrow> visited st y"
    unfolding cyc_done_def by blast+
  have l: "cyc ! s < length heads"
    using assms(4) s by simp
  have "cyc ! s \<notin> X"
    using assms(3) s by simp
  with a(1,2) assms(2) l have "visited st' (cyc ! s)" "lowlinks st' ! (cyc ! s) = r"
    by (simp_all add: tarjan_frame_def visited_def)
  moreover have "visited st' y" if "y < length heads" "head_of heads y = cyc ! s" for y
    using a(3) [OF that] assms(2) that(1) by (rule_tac tarjan_frame_visited)
  ultimately show "visited st' (cyc ! s) \<and> lowlinks st' ! (cyc ! s) = r \<and>
        (\<forall>y < length heads. head_of heads y = cyc ! s \<longrightarrow> visited st' y)"
    by blast
qed

lemma strong_connect_cycle:
  "valid_heads heads \<Longrightarrow> is_cycle_list heads cyc \<Longrightarrow> 0 < t \<Longrightarrow> t < length cyc \<Longrightarrow> i = cyc ! t \<Longrightarrow>
   tarjan_inv heads st \<Longrightarrow> indices st ! (cyc ! 0) = r \<Longrightarrow> stack st = rev (take t cyc) \<Longrightarrow>
   (\<forall>s. t \<le> s \<and> s < length cyc \<longrightarrow> \<not> visited st (cyc ! s)) \<Longrightarrow>
   cyc_post heads cyc r t st (strong_connect heads i st)"
  and sc_dependents_cycle:
  "valid_heads heads \<Longrightarrow> is_cycle_list heads cyc \<Longrightarrow> t < length cyc \<Longrightarrow> i = cyc ! t \<Longrightarrow>
   tarjan_inv heads st \<Longrightarrow> indices st ! (cyc ! 0) = r \<Longrightarrow>
   set js \<subseteq> set (dependents heads i) \<Longrightarrow> distinct js \<Longrightarrow>
   (\<forall>s \<le> t. visited st (cyc ! s)) \<Longrightarrow> r \<le> lowlinks st ! i \<Longrightarrow>
   cyc_loop_pre heads cyc r t js st \<Longrightarrow>
   cyc_loop_post heads cyc r t js st (sc_dependents heads i js st)"
proof (induction heads i st and heads i js st arbitrary: t and t
    rule: strong_connect_sc_dependents.induct)
  case (1 heads i st)
  note valid = \<open>valid_heads heads\<close> and cyc = \<open>is_cycle_list heads cyc\<close> and t = \<open>t < length cyc\<close>
    and t0 = \<open>0 < t\<close> and ieq = \<open>i = cyc ! t\<close> and inv = \<open>tarjan_inv heads st\<close>
    and r = \<open>indices st ! (cyc ! 0) = r\<close> and stk = \<open>stack st = rev (take t cyc)\<close>
    and nv = \<open>\<forall>s. t \<le> s \<and> s < length cyc \<longrightarrow> \<not> visited st (cyc ! s)\<close>
  note D = tarjan_invD [OF inv]
  from cyc have dist: "distinct cyc" and less: "\<And>x. x \<in> set cyc \<Longrightarrow> x < length heads"
    by (simp_all add: is_cycle_list_def)
  have i: "i < length heads"
    using less ieq t by simp
  have li: "i < length (indices st)"
    using D(1) i by simp
  have nvi: "\<not> visited st i"
    using nv t ieq by simp
  have c0: "cyc ! 0 \<in> set (stack st)"
    using stk t0 t by (simp add: in_set_conv_nth) (metis nth_take length_take min.absorb2 less_imp_le_nat)
  have v0: "visited st (cyc ! 0)" and l0: "cyc ! 0 < length heads"
    using D(6) [OF c0] by simp_all
  have ne0: "cyc ! 0 \<noteq> i"
    using nvi v0 by auto
  have rctr: "r < int (index_ctr st)"
    using D(4) [OF l0 v0] r by simp
  define st1 where "st1 = visit i st"
  define st2 where "st2 = sc_dependents heads i (dependents heads i) st1"
  have inv1: "tarjan_inv heads st1"
    unfolding st1_def using inv i nvi by (rule visit_inv)
  have stk1: "stack st1 = rev (take (Suc t) cyc)"
    using stk t ieq by (simp add: st1_def take_Suc_conv_app_nth)
  have "cyc_loop_post heads cyc r t (dependents heads i) st1 st2"
    unfolding st2_def st1_def
  proof (rule "1.IH" [OF refl refl refl, folded visit_def dependents_def, OF valid cyc t ieq])
    show "tarjan_inv heads (visit i st)"
      using inv1 by (simp add: st1_def)
    show "indices (visit i st) ! (cyc ! 0) = r"
      using r ne0 by simp
    show "set (dependents heads i) \<subseteq> set (dependents heads i)" "distinct (dependents heads i)"
      by simp_all
    show "\<forall>s \<le> t. visited (visit i st) (cyc ! s)"
    proof (intro allI impI)
      fix s assume "s \<le> t"
      show "visited (visit i st) (cyc ! s)"
      proof (cases "s = t")
        case True
        then show ?thesis using visited_visit [OF li, of i] by (simp add: ieq)
      next
        case False
        with \<open>s \<le> t\<close> t have "cyc ! s \<in> set (stack st)"
          unfolding stk by (simp add: in_set_conv_nth) (metis nth_take length_take min.absorb2 less_imp_le_nat le_neq_implies_less)
        then show ?thesis
          using D(6) by (simp add: visited_visit li)
      qed
    qed
    show "r \<le> lowlinks (visit i st) ! i"
      using rctr D(2) i by simp
    show "cyc_loop_pre heads cyc r t (dependents heads i) (visit i st)"
    proof -
      have "nxt cyc t \<in> set (dependents heads i)"
        using cycle_nxt_head [OF cyc t] less [OF cycle_nxt_mem [OF cyc]] valid ieq
        by (simp add: mem_dependents_head)
      moreover have "\<not> visited (visit i st) (cyc ! s)" if "t < s" "s < length cyc" for s
      proof -
        from that dist t ieq have "cyc ! s \<noteq> i"
          by (simp add: nth_eq_iff_index_eq)
        with nv that show ?thesis
          by (simp add: visited_visit li)
      qed
      ultimately show ?thesis
        using stk1 by (simp add: cyc_loop_pre_def st1_def)
    qed
  qed
  then have inv2: "tarjan_inv heads st2" and stack2: "stack st2 = rev cyc"
    and cycles2: "cycles st2 = cycles st" and frame2: "tarjan_frame heads {i} st1 st2"
    and low2: "lowlinks st2 ! i = r" and done2: "cyc_done heads cyc r (Suc t) st2"
    and deps2: "\<And>y. y \<in> set (dependents heads i) \<Longrightarrow> visited st2 y"
    and ub2: "\<And>x. x < length heads \<Longrightarrow> visited st2 x \<Longrightarrow> visited st1 x \<or> x \<in> desc heads (cyc ! 0)"
    by (simp_all add: cyc_loop_post_def st1_def ieq)
  have v1i: "visited st1 i"
    by (simp add: st1_def visited_visit li)
  from frame2 i v1i have ind2: "indices st2 ! i = int (index_ctr st)"
    using li by (simp add: tarjan_frame_def visited_def st1_def)
  have res: "strong_connect heads i st = st2"
    unfolding strong_connect_unfold st1_def [symmetric] st2_def [symmetric]
    using low2 ind2 rctr by (simp add: finish_def)
  have frame: "tarjan_frame heads {} st st2"
  proof -
    have "tarjan_frame heads {i} st st2"
      using tarjan_frame_visit [OF nvi] frame2 unfolding st1_def by (rule tarjan_frame_trans)
    with nvi show ?thesis
      unfolding tarjan_frame_def visited_def by blast
  qed
  have "cyc_done heads cyc r t st2"
    unfolding cyc_done_def
  proof (intro allI impI)
    fix s assume s: "t \<le> s \<and> s < length cyc"
    show "visited st2 (cyc ! s) \<and> lowlinks st2 ! (cyc ! s) = r \<and>
        (\<forall>y < length heads. head_of heads y = cyc ! s \<longrightarrow> visited st2 y)"
    proof (cases "s = t")
      case True
      have "visited st2 i"
        using tarjan_frame_visited [OF frame2 i v1i] .
      moreover have "visited st2 y" if "y < length heads" "head_of heads y = i" for y
        using deps2 [of y] that valid by (simp add: mem_dependents_head)
      ultimately show ?thesis
        using True low2 ieq by simp
    next
      case False
      with s done2 show ?thesis
        unfolding cyc_done_def by (metis Suc_leI le_neq_implies_less)
    qed
  qed
  moreover have "visited st x \<or> x \<in> desc heads (cyc ! 0)" if "x < length heads" "visited st2 x" for x
    using ub2 [OF that] cycle_mem_desc0 [OF cyc t] visited_visit [OF li, of x] ieq
    by (auto simp: st1_def)
  ultimately show ?case
    unfolding res cyc_post_def using inv2 stack2 cycles2 frame by simp
next
  case (2 heads i st)
  then show ?case
    by (simp add: cyc_loop_post_def cyc_loop_pre_def)
next
  case (3 heads i j js st)
  note valid = \<open>valid_heads heads\<close> and cyc = \<open>is_cycle_list heads cyc\<close> and t = \<open>t < length cyc\<close>
    and ieq = \<open>i = cyc ! t\<close> and inv = \<open>tarjan_inv heads st\<close>
    and r = \<open>indices st ! (cyc ! 0) = r\<close>
    and sub = \<open>set (j # js) \<subseteq> set (dependents heads i)\<close> and distjs = \<open>distinct (j # js)\<close>
    and vis = \<open>\<forall>s \<le> t. visited st (cyc ! s)\<close> and rle = \<open>r \<le> lowlinks st ! i\<close>
    and pre = \<open>cyc_loop_pre heads cyc r t (j # js) st\<close>
  note D = tarjan_invD [OF inv]
  from cyc have dist: "distinct cyc" and less: "\<And>x. x \<in> set cyc \<Longrightarrow> x < length heads"
    by (simp_all add: is_cycle_list_def)
  note ne = cycle_nonempty [OF cyc]
  have i: "i < length heads"
    using less ieq t by simp
  have vi: "visited st i"
    using vis ieq by simp
  have v0: "visited st (cyc ! 0)"
    using vis by simp
  have l0: "cyc ! 0 < length heads"
    using less ne by simp
  from sub valid have jn: "j < length heads" and hj: "head_of heads j = cyc ! t"
    by (simp_all add: mem_dependents_head ieq)
  have jl: "j < length (indices st)"
    using D(1) jn by simp
  have sub': "set js \<subseteq> set (dependents heads i)" and distjs': "distinct js"
    using sub distjs by simp_all
  have stack_sub: "set (stack st) \<subseteq> set cyc"
    using pre set_take_subset [of "Suc t" cyc] by (auto simp: cyc_loop_pre_def split: if_splits)
  have lowi: "lowlinks st ! i \<le> indices st ! i"
    using D(4) [OF i vi] by simp
  show ?case
  proof (cases "j = nxt cyc t")
    case jnxt: True
    with pre have stk: "stack st = rev (take (Suc t) cyc)"
      and nv: "\<And>s. t < s \<Longrightarrow> s < length cyc \<Longrightarrow> \<not> visited st (cyc ! s)"
      by (simp_all add: cyc_loop_pre_def)
    from jnxt distjs have notin: "nxt cyc t \<notin> set js"
      by simp
    show ?thesis
    proof (cases "Suc t < length cyc")
      case St: True
      then have jeq: "j = cyc ! Suc t"
        using jnxt by (simp add: nxt_def)
      have nvj: "\<not> visited st j"
        using nv [of "Suc t"] St jeq by simp
      then have c: "j < length (indices st) \<and> indices st ! j = - 1"
        using jl by (simp add: visited_def)
      define st1 where "st1 = strong_connect heads j st"
      have "cyc_post heads cyc r (Suc t) st st1"
        unfolding st1_def
      proof (rule "3.IH"(1) [OF c valid cyc _ St jeq inv r stk])
        show "0 < Suc t" by simp
        show "\<forall>s. Suc t \<le> s \<and> s < length cyc \<longrightarrow> \<not> visited st (cyc ! s)"
          using nv by simp
      qed
      then have inv1: "tarjan_inv heads st1" and stack1: "stack st1 = rev cyc"
        and cycles1: "cycles st1 = cycles st" and frame1: "tarjan_frame heads {} st st1"
        and done1: "cyc_done heads cyc r (Suc t) st1"
        and ub1: "\<And>x. x < length heads \<Longrightarrow> visited st1 x \<Longrightarrow> visited st x \<or> x \<in> desc heads (cyc ! 0)"
        by (simp_all add: cyc_post_def)
      note D1 = tarjan_invD [OF inv1]
      from done1 St jeq have lowj: "lowlinks st1 ! j = r" and vj1: "visited st1 j"
        unfolding cyc_done_def by auto
      have lowi1: "lowlinks st1 ! i = lowlinks st ! i" and indi1: "indices st1 ! i = indices st ! i"
        using frame1 i vi by (simp_all add: tarjan_frame_def visited_def)
      have ind01: "indices st1 ! (cyc ! 0) = r"
        using frame1 l0 v0 r by (simp add: tarjan_frame_def visited_def)
      have m: "min (lowlinks st1 ! i) (lowlinks st1 ! j) = r"
        using lowj lowi1 rle by simp
      define st1' where "st1' = st1\<lparr>lowlinks := (lowlinks st1)[i := r]\<rparr>"
      have eq: "sc_dependents heads i (j # js) st = sc_dependents heads i js st1'"
        using c by (simp add: sc_dependents.simps(2) Let_def st1_def [symmetric] m st1'_def)
      have inv1': "tarjan_inv heads st1'"
        unfolding st1'_def using inv1 rle lowi indi1 by (intro tarjan_inv_lowlinks) simp_all
      have "cyc_loop_post heads cyc r t js st1' (sc_dependents heads i js st1')"
      proof (rule "3.IH"(2) [OF c refl, folded st1_def, unfolded m, folded st1'_def,
            OF valid cyc t ieq inv1' _ sub' distjs'])
        show "indices st1' ! (cyc ! 0) = r"
          using ind01 by (simp add: st1'_def)
        show "\<forall>s \<le> t. visited st1' (cyc ! s)"
          using vis tarjan_frame_visited [OF frame1] less t by (simp add: st1'_def)
        show "r \<le> lowlinks st1' ! i"
          using D1(2) i by (simp add: st1'_def)
        have "cyc_done heads cyc r (Suc t) st1'"
          unfolding st1'_def using done1 tarjan_frame_lowlinks
        proof (rule cyc_done_frame)
          show "cyc ! s \<notin> {i}" if "Suc t \<le> s" "s < length cyc" for s
            using that dist t ieq by (simp add: nth_eq_iff_index_eq)
        qed (rule less)
        then show "cyc_loop_pre heads cyc r t js st1'"
          using notin stack1 D1(2) i ieq by (simp add: cyc_loop_pre_def st1'_def)
      qed
      then have post: "tarjan_inv heads (sc_dependents heads i js st1')"
        "stack (sc_dependents heads i js st1') = rev cyc"
        "cycles (sc_dependents heads i js st1') = cycles st1'"
        "tarjan_frame heads {cyc ! t} st1' (sc_dependents heads i js st1')"
        "lowlinks (sc_dependents heads i js st1') ! (cyc ! t) = r"
        "cyc_done heads cyc r (Suc t) (sc_dependents heads i js st1')"
        "\<And>y. y \<in> set js \<Longrightarrow> visited (sc_dependents heads i js st1') y"
        "\<And>x. x < length heads \<Longrightarrow> visited (sc_dependents heads i js st1') x \<Longrightarrow>
            visited st1' x \<or> x \<in> desc heads (cyc ! 0)"
        by (simp_all add: cyc_loop_post_def)
      have fr: "tarjan_frame heads {cyc ! t} st (sc_dependents heads i js st1')"
      proof -
        have "tarjan_frame heads {cyc ! t} st st1"
          using frame1 by (rule tarjan_frame_mono) simp
        moreover have "tarjan_frame heads {cyc ! t} st1 st1'"
          unfolding st1'_def ieq by (rule tarjan_frame_lowlinks)
        ultimately show ?thesis
          using post(4) by (blast intro: tarjan_frame_trans)
      qed
      have "visited (sc_dependents heads i js st1') j"
        using tarjan_frame_visited [OF post(4) jn] vj1 by (simp add: st1'_def)
      moreover have "visited st x \<or> x \<in> desc heads (cyc ! 0)"
        if "x < length heads" "visited (sc_dependents heads i js st1') x" for x
        using post(8) [OF that] ub1 [OF that(1)] by (auto simp: st1'_def)
      ultimately show ?thesis
        unfolding eq cyc_loop_post_def using post(1,2,3,5,6,7) fr cycles1
        by (simp add: st1'_def)
    next
      case St: False
      with t have tK: "Suc t = length cyc"
        by simp
      from St jnxt have jeq: "j = cyc ! 0"
        by (simp add: nxt_def)
      have stk': "stack st = rev cyc"
        using stk tK by simp
      have vj: "visited st j"
        using v0 jeq by simp
      then have c: "\<not> (j < length (indices st) \<and> indices st ! j = - 1)"
        by (simp add: visited_def)
      have os: "onstack st ! j"
        using D(5) [OF jn] stk' jeq ne by simp
      have m: "min (lowlinks st ! i) (indices st ! j) = r"
        using rle r jeq by simp
      define st1' where "st1' = st\<lparr>lowlinks := (lowlinks st)[i := r]\<rparr>"
      have eq: "sc_dependents heads i (j # js) st = sc_dependents heads i js st1'"
        using vj os by (simp add: sc_dependents.simps(2) m st1'_def visited_def)
      have inv1': "tarjan_inv heads st1'"
        unfolding st1'_def using inv rle lowi by (intro tarjan_inv_lowlinks) simp_all
      have "cyc_loop_post heads cyc r t js st1' (sc_dependents heads i js st1')"
      proof (rule "3.IH"(3) [OF c os, unfolded m, folded st1'_def,
            OF valid cyc t ieq inv1' _ sub' distjs'])
        show "indices st1' ! (cyc ! 0) = r"
          using r by (simp add: st1'_def)
        show "\<forall>s \<le> t. visited st1' (cyc ! s)"
          using vis by (simp add: st1'_def)
        show "r \<le> lowlinks st1' ! i"
          using D(2) i by (simp add: st1'_def)
        have "cyc_done heads cyc r (Suc t) st1'"
          unfolding cyc_done_def using tK by auto
        then show "cyc_loop_pre heads cyc r t js st1'"
          using notin stk' D(2) i ieq by (simp add: cyc_loop_pre_def st1'_def)
      qed
      then have post: "tarjan_inv heads (sc_dependents heads i js st1')"
        "stack (sc_dependents heads i js st1') = rev cyc"
        "cycles (sc_dependents heads i js st1') = cycles st1'"
        "tarjan_frame heads {cyc ! t} st1' (sc_dependents heads i js st1')"
        "lowlinks (sc_dependents heads i js st1') ! (cyc ! t) = r"
        "cyc_done heads cyc r (Suc t) (sc_dependents heads i js st1')"
        "\<And>y. y \<in> set js \<Longrightarrow> visited (sc_dependents heads i js st1') y"
        "\<And>x. x < length heads \<Longrightarrow> visited (sc_dependents heads i js st1') x \<Longrightarrow>
            visited st1' x \<or> x \<in> desc heads (cyc ! 0)"
        by (simp_all add: cyc_loop_post_def)
      have fr: "tarjan_frame heads {cyc ! t} st (sc_dependents heads i js st1')"
      proof -
        have "tarjan_frame heads {cyc ! t} st st1'"
          unfolding st1'_def ieq by (rule tarjan_frame_lowlinks)
        then show ?thesis
          using post(4) by (blast intro: tarjan_frame_trans)
      qed
      have "visited (sc_dependents heads i js st1') j"
        using tarjan_frame_visited [OF post(4) jn] vj by (simp add: st1'_def)
      moreover have "visited st x \<or> x \<in> desc heads (cyc ! 0)"
        if "x < length heads" "visited (sc_dependents heads i js st1') x" for x
        using post(8) [OF that] by (auto simp: st1'_def)
      ultimately show ?thesis
        unfolding eq cyc_loop_post_def using post(1,2,3,5,6,7) fr
        by (simp add: st1'_def)
    qed
  next
    case jnxt: False
    note off = cycle_dependent_off [OF cyc t hj jnxt]
      and offdesc = cycle_dependent_desc [OF cyc t hj jnxt]
      and offnbc = cycle_dependent_no_big_cycle [OF cyc t hj jnxt]
    have nst: "j \<notin> set (stack st)"
      using off stack_sub by blast
    have pre': "cyc_loop_pre heads cyc r t js st'" if "stack st' = stack st"
      "lowlinks st' ! (cyc ! t) = lowlinks st ! (cyc ! t)"
      "\<And>s. t < s \<Longrightarrow> s < length cyc \<Longrightarrow> visited st' (cyc ! s) = visited st (cyc ! s)"
      "cyc_done heads cyc r (Suc t) st \<Longrightarrow> cyc_done heads cyc r (Suc t) st'" for st'
      using pre jnxt that unfolding cyc_loop_pre_def by (auto split: if_splits)
    show ?thesis
    proof (cases "visited st j")
      case nvj: False
      then have c: "j < length (indices st) \<and> indices st ! j = - 1"
        using jl by (simp add: visited_def)
      define st1 where "st1 = strong_connect heads j st"
      have "tree_post heads j st st1"
        unfolding st1_def using valid inv jn nvj _ offnbc
      proof (rule strong_connect_tree)
        show "set (stack st) \<inter> desc heads j = {}"
          using offdesc stack_sub by blast
      qed
      then have inv1: "tarjan_inv heads st1" and stack1: "stack st1 = stack st"
        and cycles1: "cycles st1 = cycles st" and frame1: "tarjan_frame heads {} st st1"
        and vis1: "\<And>x. x < length heads \<Longrightarrow> visited st1 x = (visited st x \<or> x \<in> desc heads j)"
        and low1: "lowlinks st1 ! j = int (index_ctr st)"
        by (simp_all add: tree_post_def)
      have lowi1: "lowlinks st1 ! i = lowlinks st ! i"
        using frame1 i vi by (simp add: tarjan_frame_def visited_def)
      have ind01: "indices st1 ! (cyc ! 0) = r"
        using frame1 l0 v0 r by (simp add: tarjan_frame_def visited_def)
      have "lowlinks st ! i < int (index_ctr st)"
        using D(4) [OF i vi] by simp
      then have m: "min (lowlinks st1 ! i) (lowlinks st1 ! j) = lowlinks st1 ! i"
        using low1 lowi1 by simp
      have eq: "sc_dependents heads i (j # js) st = sc_dependents heads i js st1"
        using c by (simp add: sc_dependents.simps(2) Let_def st1_def [symmetric] m)
      have "cyc_loop_post heads cyc r t js st1 (sc_dependents heads i js st1)"
      proof (rule "3.IH"(2) [OF c refl, folded st1_def, unfolded m lowlinks_update_id,
            OF valid cyc t ieq inv1 ind01 sub' distjs'])
        show "\<forall>s \<le> t. visited st1 (cyc ! s)"
          using vis tarjan_frame_visited [OF frame1] less t by simp
        show "r \<le> lowlinks st1 ! i"
          using rle lowi1 by simp
        show "cyc_loop_pre heads cyc r t js st1"
        proof (rule pre')
          show "stack st1 = stack st" by (rule stack1)
          show "lowlinks st1 ! (cyc ! t) = lowlinks st ! (cyc ! t)"
            using lowi1 ieq by simp
          show "visited st1 (cyc ! s) = visited st (cyc ! s)" if "t < s" "s < length cyc" for s
          proof -
            have "cyc ! s \<in> set cyc"
              using that by simp
            with offdesc have "cyc ! s \<notin> desc heads j"
              by blast
            with vis1 [of "cyc ! s"] less [OF \<open>cyc ! s \<in> set cyc\<close>] show ?thesis
              by simp
          qed
          show "cyc_done heads cyc r (Suc t) st1" if "cyc_done heads cyc r (Suc t) st"
            using that frame1 by (rule cyc_done_frame) (simp_all add: less)
        qed
      qed
      then have post: "tarjan_inv heads (sc_dependents heads i js st1)"
        "stack (sc_dependents heads i js st1) = rev cyc"
        "cycles (sc_dependents heads i js st1) = cycles st1"
        "tarjan_frame heads {cyc ! t} st1 (sc_dependents heads i js st1)"
        "lowlinks (sc_dependents heads i js st1) ! (cyc ! t) = r"
        "cyc_done heads cyc r (Suc t) (sc_dependents heads i js st1)"
        "\<And>y. y \<in> set js \<Longrightarrow> visited (sc_dependents heads i js st1) y"
        "\<And>x. x < length heads \<Longrightarrow> visited (sc_dependents heads i js st1) x \<Longrightarrow>
            visited st1 x \<or> x \<in> desc heads (cyc ! 0)"
        by (simp_all add: cyc_loop_post_def)
      have fr: "tarjan_frame heads {cyc ! t} st (sc_dependents heads i js st1)"
      proof -
        have "tarjan_frame heads {cyc ! t} st st1"
          using frame1 by (rule tarjan_frame_mono) simp
        then show ?thesis
          using post(4) by (blast intro: tarjan_frame_trans)
      qed
      have "visited st1 j"
        using vis1 [OF jn] desc_self [OF jn] by simp
      then have "visited (sc_dependents heads i js st1) j"
        using tarjan_frame_visited [OF post(4) jn] by simp
      moreover have "visited st x \<or> x \<in> desc heads (cyc ! 0)"
        if "x < length heads" "visited (sc_dependents heads i js st1) x" for x
      proof -
        have "x \<in> desc heads (cyc ! 0)" if "x \<in> desc heads j"
          using desc_trans [OF desc_step [OF that hj] cycle_mem_desc0 [OF cyc t]] .
        with post(8) [OF that] vis1 [OF that(1)] show ?thesis
          by blast
      qed
      ultimately show ?thesis
        unfolding eq cyc_loop_post_def using post(1,2,3,5,6,7) fr cycles1
        by simp
    next
      case vj: True
      have os: "\<not> onstack st ! j"
        using D(5) [OF jn] nst by simp
      have c: "\<not> (j < length (indices st) \<and> indices st ! j = - 1)"
        using vj by (simp add: visited_def)
      have eq: "sc_dependents heads i (j # js) st = sc_dependents heads i js st"
        using vj os by (simp add: sc_dependents.simps(2) visited_def)
      have "cyc_loop_post heads cyc r t js st (sc_dependents heads i js st)"
        by (rule "3.IH"(4) [OF c os valid cyc t ieq inv r sub' distjs' vis rle]) (rule pre', simp_all)
      moreover from this have "visited (sc_dependents heads i js st) j"
        using tarjan_frame_visited [OF _ jn vj] by (auto simp: cyc_loop_post_def)
      ultimately show ?thesis
        unfolding eq cyc_loop_post_def by simp
    qed
  qed
qed

definition mask_of :: "nat \<Rightarrow> nat list \<Rightarrow> bool list" where
  "mask_of n cyc = map (\<lambda>x. x \<in> set cyc) [0..<n]"

text \<open>A call on the first token of a cycle, with an empty stack, visits the component of the
  cycle, leaves the stack empty and appends the mask of the cycle.\<close>

definition root_post :: "int list \<Rightarrow> nat list \<Rightarrow> tarjan_state \<Rightarrow> tarjan_state \<Rightarrow> bool" where
  "root_post heads cyc st st' =
     (tarjan_inv heads st' \<and> stack st' = [] \<and> cycles st' = cycles st @ [mask_of (length heads) cyc] \<and>
      (\<forall>x < length heads. visited st x \<longrightarrow> visited st' x) \<and> visited st' (cyc ! 0) \<and>
      (\<forall>x < length heads. visited st' x \<longrightarrow> visited st x \<or> x \<in> desc heads (cyc ! 0)))"

lemma count_true_mask_of:
  assumes "distinct cyc" "\<forall>x \<in> set cyc. x < n"
  shows "count_true (mask_of n cyc) = length cyc"
proof -
  have "count_true (mask_of n cyc) = length (filter (\<lambda>x. x \<in> set cyc) [0..<n])"
    by (simp add: count_true_def mask_of_def filter_map comp_def)
  also have "\<dots> = card (set (filter (\<lambda>x. x \<in> set cyc) [0..<n]))"
    by (rule distinct_card [symmetric]) simp
  also have "set (filter (\<lambda>x. x \<in> set cyc) [0..<n]) = set cyc"
    using assms(2) by auto
  also have "card (set cyc) = length cyc"
    using assms(1) by (rule distinct_card)
  finally show ?thesis .
qed

lemma strong_connect_root:
  assumes valid: "valid_heads heads" and cyc: "is_cycle_list heads cyc" and inv: "tarjan_inv heads st"
    and stk: "stack st = []" and nv: "\<forall>x \<in> set cyc. \<not> visited st x"
  shows "root_post heads cyc st (strong_connect heads (cyc ! 0) st)"
proof -
  note D = tarjan_invD [OF inv]
  note ne = cycle_nonempty [OF cyc]
  from cyc have dist: "distinct cyc" and less: "\<And>x. x \<in> set cyc \<Longrightarrow> x < length heads"
    by (simp_all add: is_cycle_list_def)
  define i where "i = cyc ! 0"
  have imem: "i \<in> set cyc"
    using ne by (simp add: i_def)
  have i: "i < length heads"
    using less imem by simp
  have li: "i < length (indices st)"
    using D(1) i by simp
  have nvi: "\<not> visited st i"
    using nv imem by simp
  define r where "r = int (index_ctr st)"
  define st1 where "st1 = visit i st"
  define st2 where "st2 = sc_dependents heads i (dependents heads i) st1"
  have inv1: "tarjan_inv heads st1"
    unfolding st1_def using inv i nvi by (rule visit_inv)
  have "cyc_loop_post heads cyc r 0 (dependents heads i) st1 st2"
    unfolding st2_def
  proof (rule sc_dependents_cycle [OF valid cyc _ _ inv1])
    show "0 < length cyc" using ne by simp
    show "i = cyc ! 0" by (rule i_def)
    show "indices st1 ! (cyc ! 0) = r"
      using li by (simp add: st1_def r_def i_def [symmetric])
    show "set (dependents heads i) \<subseteq> set (dependents heads i)" "distinct (dependents heads i)"
      by simp_all
    show "\<forall>s \<le> 0. visited st1 (cyc ! s)"
      using visited_visit [OF li, of i] by (simp add: st1_def i_def)
    show "r \<le> lowlinks st1 ! i"
      using D(2) i by (simp add: st1_def r_def)
    show "cyc_loop_pre heads cyc r 0 (dependents heads i) st1"
    proof -
      have "nxt cyc 0 \<in> set (dependents heads i)"
        using cycle_nxt_head [OF cyc, of 0] less [OF cycle_nxt_mem [OF cyc]] valid ne
        by (simp add: mem_dependents_head i_def)
      moreover have "\<not> visited st1 (cyc ! s)" if "0 < s" "s < length cyc" for s
      proof -
        from that dist ne have "cyc ! s \<noteq> i"
          by (simp add: nth_eq_iff_index_eq i_def)
        with nv that show ?thesis
          by (simp add: st1_def visited_visit li)
      qed
      moreover have "take (Suc 0) cyc = [i]"
        using ne by (cases cyc) (simp_all add: i_def)
      ultimately show ?thesis
        using stk by (simp add: cyc_loop_pre_def st1_def)
    qed
  qed
  then have inv2: "tarjan_inv heads st2" and stack2: "stack st2 = rev cyc"
    and cycles2: "cycles st2 = cycles st" and frame2: "tarjan_frame heads {i} st1 st2"
    and low2: "lowlinks st2 ! i = r" and done2: "cyc_done heads cyc r (Suc 0) st2"
    and deps2: "\<And>y. y \<in> set (dependents heads i) \<Longrightarrow> visited st2 y"
    and ub2: "\<And>x. x < length heads \<Longrightarrow> visited st2 x \<Longrightarrow> visited st1 x \<or> x \<in> desc heads (cyc ! 0)"
    by (simp_all add: cyc_loop_post_def st1_def i_def)
  note D2 = tarjan_invD [OF inv2]
  have v1i: "visited st1 i"
    by (simp add: st1_def visited_visit li)
  from frame2 i v1i have ind2: "indices st2 ! i = r"
    using li by (simp add: tarjan_frame_def visited_def st1_def r_def)
  have cyc_split: "rev cyc = rev (tl cyc) @ i # []"
    using ne by (cases cyc) (simp_all add: i_def)
  have set_split: "set (rev (tl cyc) @ [i]) = set cyc"
    using ne by (cases cyc) (auto simp: i_def)
  have pop: "pop_cycle i (stack st2) (onstack st2) (replicate (length (indices st2)) False) =
      ([], map (\<lambda>x. onstack st2 ! x \<and> x \<notin> set cyc) [0..<length heads], mask_of (length heads) cyc)"
  proof -
    have "pop_cycle i (rev (tl cyc) @ i # []) (onstack st2) (replicate (length heads) False) =
      ([], map (\<lambda>x. onstack st2 ! x \<and> x \<notin> set (rev (tl cyc) @ [i])) [0..<length heads],
        map (\<lambda>x. replicate (length heads) False ! x \<or> x \<in> set (rev (tl cyc) @ [i])) [0..<length heads])"
    proof (rule pop_cycle_all)
      show "distinct (rev (tl cyc) @ [i])"
        using dist ne by (cases cyc) (auto simp: i_def)
      show "length (onstack st2) = length heads"
        by (rule D2(3))
      show "length (replicate (length heads) False) = length heads"
        by simp
      show "\<forall>x \<in> set (rev (tl cyc) @ [i]). x < length heads"
        unfolding set_split using less by blast
    qed
    then show ?thesis
      unfolding set_split stack2 cyc_split [symmetric] D2(1) mask_of_def
      by (simp cong: map_cong)
  qed
  define st' where "st' = st2\<lparr>stack := [],
      onstack := map (\<lambda>x. onstack st2 ! x \<and> x \<notin> set cyc) [0..<length heads],
      cycles := cycles st @ [mask_of (length heads) cyc]\<rparr>"
  have cnt: "1 < count_true (mask_of (length heads) cyc)"
    using count_true_mask_of [OF dist, of "length heads"] less ne by simp
  have res: "strong_connect heads (cyc ! 0) st = st'"
    unfolding strong_connect_unfold i_def [symmetric] st1_def [symmetric] st2_def [symmetric]
    using low2 ind2 cnt by (simp add: finish_def pop st'_def cycles2)
  have vis': "visited st' x = visited st2 x" for x
    by (simp add: st'_def visited_def)
  have stack': "stack st' = []" and cycles': "cycles st' = cycles st @ [mask_of (length heads) cyc]"
    by (simp_all add: st'_def)
  have cyc_vis: "visited st2 x" if "x \<in> set cyc" for x
    using D2(6) [of x] that stack2 by simp
  have deps_vis: "visited st2 y" if "x \<in> set cyc" "y < length heads" "head_of heads y = x" for x y
  proof -
    from that(1) obtain s where s: "s < length cyc" "x = cyc ! s"
      by (auto simp: in_set_conv_nth)
    show ?thesis
    proof (cases s)
      case 0
      with s that valid deps2 [of y] show ?thesis
        by (simp add: mem_dependents_head i_def)
    next
      case (Suc s')
      with done2 s that show ?thesis
        unfolding cyc_done_def by (metis Suc_leI zero_less_Suc)
    qed
  qed
  have inv': "tarjan_inv heads st'"
  proof (rule tarjan_invI)
    show "length (indices st') = length heads" "length (lowlinks st') = length heads"
      "length (onstack st') = length heads"
      using D2(1-3) by (simp_all add: st'_def)
    show "0 \<le> indices st' ! x \<and> indices st' ! x < int (index_ctr st') \<and> lowlinks st' ! x \<le> indices st' ! x"
      if "x < length heads" "visited st' x" for x
      using D2(4) [of x] that by (simp add: st'_def visited_def)
    show "onstack st' ! x = (x \<in> set (stack st'))" if "x < length heads" for x
      using D2(5) [OF that] that stack2 by (simp add: st'_def)
    show "x < length heads \<and> visited st' x" if "x \<in> set (stack st')" for x
      using that by (simp add: stack')
    show "distinct (stack st')"
      by (simp add: stack')
    show "visited st' y \<and> y \<notin> set (stack st')"
      if xy: "x < length heads" "y < length heads" "visited st' x" "x \<notin> set (stack st')"
        "head_of heads y = x" for x y
    proof (cases "x \<in> set cyc")
      case True
      from deps_vis [OF True xy(2,5)] show ?thesis
        unfolding vis' stack' by simp
    next
      case False
      with xy have "visited st2 x" "x \<notin> set (stack st2)"
        unfolding vis' by (simp_all add: stack2)
      from D2(8) [OF xy(1,2) this xy(5)] show ?thesis
        unfolding vis' stack' by simp
    qed
  qed
  have fr: "tarjan_frame heads {i} st st2"
    using tarjan_frame_visit [OF nvi] frame2 unfolding st1_def by (rule tarjan_frame_trans)
  have keep: "visited st' x" if "x < length heads" "visited st x" for x
    using tarjan_frame_visited [OF fr that] by (simp add: vis')
  have ub: "visited st x \<or> x \<in> desc heads (cyc ! 0)" if "x < length heads" "visited st' x" for x
    using ub2 [OF that(1)] that(2) visited_visit [OF li, of x] desc_self [OF i]
    by (auto simp: vis' st1_def i_def)
  show ?thesis
    unfolding res root_post_def
    using inv' keep ub cyc_vis [OF imem] stack' cycles' unfolding vis' i_def by simp
qed

lemma funpow_add_app: "(f ^^ (m + n)) x = (f ^^ m) ((f ^^ n) x)"
  by (simp add: funpow_add)

lemma funpow_period:
  assumes "(f ^^ m) x = x"
  shows "(f ^^ (m * q)) x = x"
proof (induction q)
  case 0
  then show ?case by simp
next
  case (Suc q)
  have "(f ^^ (m * Suc q)) x = (f ^^ (m * q + m)) x"
    by (simp add: add.commute)
  also have "\<dots> = (f ^^ (m * q)) ((f ^^ m) x)"
    by (rule funpow_add_app)
  finally show ?case
    using assms Suc by simp
qed

lemma funpow_fixed: "f x = x \<Longrightarrow> (f ^^ k) x = x"
  by (induction k) simp_all

lemma big_cycle_desc:
  assumes x: "x \<in> desc heads i" and big: "\<not> no_big_cycle heads x"
  shows "\<not> no_big_cycle heads i"
proof -
  let ?f = "head_of heads"
  from x obtain k where k: "(?f ^^ k) x = i"
    by (auto simp: desc_def)
  from big obtain m where m: "0 < m" "(?f ^^ m) x = x" "?f x \<noteq> x"
    by (auto simp: no_big_cycle_def)
  have "(?f ^^ m) ((?f ^^ k) x) = (?f ^^ (m + k)) x"
    by (simp add: funpow_add_app)
  also have "\<dots> = (?f ^^ (k + m)) x"
    by (simp add: add.commute)
  also have "\<dots> = (?f ^^ k) ((?f ^^ m) x)"
    by (rule funpow_add_app)
  finally have mi: "(?f ^^ m) i = i"
    using m(2) k by simp
  have "?f i \<noteq> i"
  proof
    assume fp: "?f i = i"
    have "k \<le> m * k"
      using m(1) by simp
    then have "(?f ^^ (m * k)) x = (?f ^^ (m * k - k)) ((?f ^^ k) x)"
      using funpow_add_app [where f = ?f and m = "m * k - k" and n = k and x = x] by simp
    also have "\<dots> = i"
      unfolding k using fp by (rule funpow_fixed)
    finally have "x = i"
      using funpow_period [OF m(2), of k] by simp
    with fp m(3) show False
      by simp
  qed
  with m(1) mi show ?thesis
    unfolding no_big_cycle_def by blast
qed

text \<open>The cycle through a token that lies on one, listed from the token against the heads.\<close>

lemma big_cycle_list:
  assumes valid: "valid_heads heads" and i: "i < length heads" and big: "\<not> no_big_cycle heads i"
  shows "\<exists>cyc. is_cycle_list heads cyc \<and> cyc ! 0 = i \<and> set cyc \<subseteq> {c. i \<in> desc heads c}"
proof -
  let ?f = "head_of heads"
  from big obtain m where m: "0 < m" "(?f ^^ m) i = i" and nfp: "?f i \<noteq> i"
    by (auto simp: no_big_cycle_def)
  define K where "K = (LEAST k. 0 < k \<and> (?f ^^ k) i = i)"
  have K: "0 < K \<and> (?f ^^ K) i = i"
    unfolding K_def using m by (intro LeastI [of "\<lambda>k. 0 < k \<and> (?f ^^ k) i = i" m]) simp
  have Kmin: "K \<le> k" if "0 < k" "(?f ^^ k) i = i" for k
    unfolding K_def using that by (intro Least_le) simp
  have K2: "2 \<le> K"
  proof (rule ccontr)
    assume "\<not> 2 \<le> K"
    with K have "K = 1" by simp
    with K nfp show False by simp
  qed
  define cyc where "cyc = map (\<lambda>t. (?f ^^ (K - t)) i) [0..<K]"
  have len: "length cyc = K"
    by (simp add: cyc_def)
  have nth: "cyc ! t = (?f ^^ (K - t)) i" if "t < K" for t
    using that by (simp add: cyc_def)
  have dist: "distinct cyc"
    unfolding distinct_conv_nth len
  proof (intro allI impI)
    fix s t assume st: "s < K" "t < K" "s \<noteq> t"
    have False if lt: "s < t" "t < K" and eq: "(?f ^^ (K - s)) i = (?f ^^ (K - t)) i" for s t
    proof -
      have "(?f ^^ (t + (K - s))) i = (?f ^^ t) ((?f ^^ (K - s)) i)"
        by (rule funpow_add_app)
      also have "\<dots> = (?f ^^ t) ((?f ^^ (K - t)) i)"
        by (simp add: eq)
      also have "\<dots> = (?f ^^ K) i"
        using funpow_add_app [where f = ?f and m = t and n = "K - t" and x = i] lt by simp
      also have "\<dots> = i"
        using K by simp
      finally have a: "(?f ^^ (t + (K - s))) i = i" .
      have "t + (K - s) = K + (t - s)"
        using lt by simp
      then have "(?f ^^ (t - s)) ((?f ^^ K) i) = i"
        using a funpow_add_app [where f = ?f and m = "t - s" and n = K and x = i] by (simp add: add.commute)
      then have "(?f ^^ (t - s)) i = i"
        using K by simp
      from Kmin [OF _ this] lt show False
        by simp
    qed
    from this [of s t] this [of t s] st show "cyc ! s \<noteq> cyc ! t"
      by (cases "s < t") (auto simp: nth)
  qed
  have less: "x < length heads" if "x \<in> set cyc" for x
    using that head_of_funpow_less [OF valid i] by (auto simp: cyc_def)
  have step: "?f (cyc ! Suc t) = cyc ! t" if "Suc t < K" for t
  proof -
    have "K - t = Suc (K - Suc t)"
      using that by simp
    then show ?thesis
      using that by (simp add: nth)
  qed
  have c0: "cyc ! 0 = i"
    using K by (simp add: nth)
  have "cyc \<noteq> []"
    using K len by auto
  then have "last cyc = cyc ! (K - 1)"
    by (simp add: last_conv_nth len)
  also have "\<dots> = ?f i"
    using K2 by (simp add: nth)
  finally have lst: "?f (cyc ! 0) = last cyc"
    by (simp add: c0)
  have reach: "i \<in> desc heads c" if "c \<in> set cyc" for c
    using that i unfolding desc_def cyc_def by auto
  have "is_cycle_list heads cyc"
    unfolding is_cycle_list_def using K2 dist less step lst by (simp add: len)
  with c0 reach show ?thesis
    by blast
qed

definition tarjan_top :: "int list \<Rightarrow> tarjan_state \<Rightarrow> bool" where
  "tarjan_top heads st =
     (tarjan_inv heads st \<and> stack st = [] \<and>
      (\<forall>c \<in> set (cycles st). \<exists>cyc. is_cycle_list heads cyc \<and> c = mask_of (length heads) cyc) \<and>
      (\<forall>x < length heads. visited st x \<longrightarrow> \<not> no_big_cycle heads x \<longrightarrow> cycles st \<noteq> []))"

lemma tarjan_step_top:
  assumes valid: "valid_heads heads" and top: "tarjan_top heads st" and i: "i < length heads"
  shows "tarjan_top heads (tarjan_step heads i st) \<and> visited (tarjan_step heads i st) i \<and>
    (\<forall>x < length heads. visited st x \<longrightarrow> visited (tarjan_step heads i st) x)"
proof (cases "visited st i")
  case True
  then have "tarjan_step heads i st = st"
    by (simp add: tarjan_step_def visited_def)
  with True top show ?thesis
    by simp
next
  case nvi: False
  then have res: "tarjan_step heads i st = strong_connect heads i st"
    by (simp add: tarjan_step_def visited_def)
  from top have inv: "tarjan_inv heads st" and stk: "stack st = []"
    and sound: "\<forall>c \<in> set (cycles st). \<exists>cyc. is_cycle_list heads cyc \<and> c = mask_of (length heads) cyc"
    and compl: "\<And>x. x < length heads \<Longrightarrow> visited st x \<Longrightarrow> \<not> no_big_cycle heads x \<Longrightarrow> cycles st \<noteq> []"
    by (simp_all add: tarjan_top_def)
  show ?thesis
  proof (cases "no_big_cycle heads i")
    case True
    have "tree_post heads i st (strong_connect heads i st)"
      using valid inv i nvi _ True by (rule strong_connect_tree) (simp add: stk)
    then have post: "tarjan_inv heads (strong_connect heads i st)"
      "stack (strong_connect heads i st) = []" "cycles (strong_connect heads i st) = cycles st"
      "\<And>x. x < length heads \<Longrightarrow>
          visited (strong_connect heads i st) x = (visited st x \<or> x \<in> desc heads i)"
      by (simp_all add: tree_post_def stk)
    have "cycles st \<noteq> []"
      if "x < length heads" "visited (strong_connect heads i st) x" "\<not> no_big_cycle heads x" for x
    proof (cases "visited st x")
      case True
      then show ?thesis using compl that by blast
    next
      case False
      with post(4) that have "x \<in> desc heads i"
        by simp
      from big_cycle_desc [OF this that(3)] \<open>no_big_cycle heads i\<close> show ?thesis
        by simp
    qed
    then show ?thesis
      unfolding res tarjan_top_def using post sound desc_self [OF i] i by auto
  next
    case False
    from big_cycle_list [OF valid i False] obtain cyc where
      cyc: "is_cycle_list heads cyc" and c0: "cyc ! 0 = i" and reach: "\<And>c. c \<in> set cyc \<Longrightarrow> i \<in> desc heads c"
      by blast
    have nv: "\<forall>x \<in> set cyc. \<not> visited st x"
    proof
      fix c assume c: "c \<in> set cyc"
      show "\<not> visited st c"
      proof
        assume "visited st c"
        then have "indices st ! i \<noteq> - 1"
          using tarjan_inv_done_desc [OF inv valid reach [OF c] cycle_mem_less [OF cyc c]] stk
          by (simp add: visited_def)
        with nvi show False
          by (simp add: visited_def)
      qed
    qed
    have "root_post heads cyc st (strong_connect heads (cyc ! 0) st)"
      using valid cyc inv stk nv by (rule strong_connect_root)
    then have post: "tarjan_inv heads (strong_connect heads i st)"
      "stack (strong_connect heads i st) = []"
      "cycles (strong_connect heads i st) = cycles st @ [mask_of (length heads) cyc]"
      "\<And>x. x < length heads \<Longrightarrow> visited st x \<Longrightarrow> visited (strong_connect heads i st) x"
      "visited (strong_connect heads i st) i"
      by (simp_all add: root_post_def c0)
    show ?thesis
      unfolding res tarjan_top_def using post sound cyc by auto
  qed
qed

lemma tarjan_fold_top:
  "valid_heads heads \<Longrightarrow> tarjan_top heads st \<Longrightarrow> \<forall>i \<in> set is. i < length heads \<Longrightarrow>
   tarjan_top heads (fold (tarjan_step heads) is st) \<and>
   (\<forall>x < length heads. visited st x \<or> x \<in> set is \<longrightarrow> visited (fold (tarjan_step heads) is st) x)"
proof (induction "is" arbitrary: st)
  case Nil
  then show ?case by simp
next
  case (Cons i "is")
  from tarjan_step_top [OF Cons.prems(1,2), of i] Cons.prems(3)
  have a: "tarjan_top heads (tarjan_step heads i st)" "visited (tarjan_step heads i st) i"
    "\<And>x. x < length heads \<Longrightarrow> visited st x \<Longrightarrow> visited (tarjan_step heads i st) x"
    by simp_all
  have rest: "\<forall>i \<in> set is. i < length heads"
    using Cons.prems(3) by simp
  from Cons.IH [OF Cons.prems(1) a(1) rest]
  have b: "tarjan_top heads (fold (tarjan_step heads) is (tarjan_step heads i st))"
    "\<And>x. x < length heads \<Longrightarrow> visited (tarjan_step heads i st) x \<or> x \<in> set is \<Longrightarrow>
       visited (fold (tarjan_step heads) is (tarjan_step heads i st)) x"
    by blast+
  show ?case
    using a b by auto
qed

lemma tarjan_init_top: "tarjan_top heads (tarjan_init heads)"
  unfolding tarjan_top_def
  by (auto simp: tarjan_init_def visited_def intro!: tarjan_invI)

lemma tarjan_sound:
  assumes "valid_heads heads" "c \<in> set (tarjan heads)"
  shows "\<exists>cyc. is_cycle_list heads cyc \<and> c = mask_of (length heads) cyc"
  using tarjan_fold_top [OF assms(1) tarjan_init_top, of "[0..<length heads]"] assms(2)
  by (simp add: tarjan_def tarjan_top_def)

lemma tarjan_complete:
  assumes "valid_heads heads" "tarjan heads = []" "i < length heads"
  shows "no_big_cycle heads i"
  using tarjan_fold_top [OF assms(1) tarjan_init_top, of "[0..<length heads]"] assms(2,3)
  by (auto simp: tarjan_def tarjan_top_def)

section \<open>Facts about the contraction and the re-expansion\<close>

lemma set_np_where: "set (np_where msk) = {i. i < length msk \<and> msk ! i}"
  by (auto simp: np_where_def)

lemma distinct_np_where [simp]: "distinct (np_where msk)"
  by (simp add: np_where_def)

lemma sorted_np_where [simp]: "sorted (np_where msk)"
  by (simp add: np_where_def sorted_wrt_filter)

lemma select_np_where:
  assumes "length xs = length msk"
  shows "select msk xs = map (\<lambda>i. xs ! i) (np_where msk)"
proof -
  have "zip msk xs = map (\<lambda>i. (msk ! i, xs ! i)) [0..<length msk]"
    using assms by (intro nth_equalityI) simp_all
  then show ?thesis
    by (simp add: select_def np_where_def filter_map comp_def)
qed

lemma scatter_Cons [simp]: "scatter xs (l # locs) (v # vals) = scatter (xs[l := v]) locs vals"
  by (simp add: scatter_def)

lemma scatter_Nil [simp]: "scatter xs [] vals = xs" "scatter xs locs [] = xs"
  by (simp_all add: scatter_def)

lemma scatter_nth_notin: "a \<notin> set locs \<Longrightarrow> scatter xs locs vals ! a = xs ! a"
proof (induction locs arbitrary: xs vals)
  case Nil
  then show ?case by simp
next
  case (Cons l locs)
  then show ?case
    by (cases vals) simp_all
qed

lemma scatter_map_in:
  "inj_on f (set P) \<Longrightarrow> p \<in> set P \<Longrightarrow> f p < length xs \<Longrightarrow>
   scatter xs (map f P) (map g P) ! (f p) = g p"
proof (induction P arbitrary: xs)
  case Nil
  then show ?case by simp
next
  case (Cons a P)
  have inj: "inj_on f (set P)"
    using Cons.prems(1) by (simp add: inj_on_def)
  show ?case
  proof (cases "p \<in> set P")
    case True
    then show ?thesis
      using Cons.IH [OF inj True, of "xs[f a := g a]"] Cons.prems(3) by simp
  next
    case False
    with Cons.prems have pa: "p = a"
      by simp
    have "f p \<notin> set (map f P)"
    proof
      assume "f p \<in> set (map f P)"
      then obtain q where "q \<in> set P" "f q = f p"
        by auto
      with Cons.prems(1,2) have "q = p"
        by (auto simp: inj_on_def)
      with False \<open>q \<in> set P\<close> show False
        by simp
    qed
    then show ?thesis
      using Cons.prems(3) by (simp add: scatter_nth_notin pa)
  qed
qed

lemma cycle_noncycle_disjoint: "set (cycle_locs cycle) \<inter> set (noncycle_locs cycle) = {}"
  by (auto simp: cycle_locs_def noncycle_locs_def set_np_where)

lemma cycle_noncycle_cover:
  "set (cycle_locs cycle) \<union> set (noncycle_locs cycle) = {..<length cycle}"
  by (auto simp: cycle_locs_def noncycle_locs_def set_np_where)

lemma length_metanode_heads [simp]:
  "length (metanode_heads m heads cycle) = length (noncycle_locs cycle)"
  by (simp add: metanode_heads_def Let_def)

lemma length_metanode_deps [simp]:
  "length (metanode_deps m cycle) = length (noncycle_locs cycle)"
  by (simp add: metanode_deps_def metanode_dep_scores_def)

text \<open>The entries of the expanded head array.  \<open>p\<close> is a position of the contracted problem,
  \<open>q\<close> a position in the cycle.\<close>

lemma expand_noncycle:
  assumes len: "length ct0 = Suc (length (noncycle_locs cycle))"
    and cyc: "length cycle = length heads"
    and root: "metanode_heads m heads cycle ! nat (last ct0) < length (cycle_locs cycle)"
    and p: "p < length (noncycle_locs cycle)"
  shows "expand m heads cycle ct0 ! (noncycle_locs cycle ! p) =
    (if ct0 ! p < int (length (noncycle_locs cycle))
     then int (noncycle_locs cycle ! nat (ct0 ! p))
     else int (cycle_locs cycle ! (metanode_deps m cycle ! p)))"
proof -
  let ?nl = "noncycle_locs cycle" and ?cl = "cycle_locs cycle"
  let ?md = "metanode_deps m cycle" and ?mh = "metanode_heads m heads cycle"
  let ?k = "length ?nl"
  define ct where "ct = butlast ct0"
  have lct: "length ct = ?k"
    using len by (simp add: ct_def)
  have ctp: "ct ! q = ct0 ! q" if "q < ?k" for q
    using that lct by (simp add: ct_def nth_butlast)
  define cs where "cs = map (\<lambda>h. h < int (length ct)) ct"
  define nh1 where "nh1 = scatter (replicate (length heads) (- 1)) (select cs ?nl)
      (map (\<lambda>h. int (?nl ! nat h)) (select cs ct))"
  define nh2 where "nh2 = scatter nh1 (select (map Not cs) ?nl)
      (map (\<lambda>d. int (?cl ! d)) (select (map Not cs) ?md))"
  define nh3 where "nh3 = scatter nh2 ?cl (map (\<lambda>c. heads ! c) ?cl)"
  have ex: "expand m heads cycle ct0 = nh3[?cl ! (?mh ! nat (last ct0)) := int (?nl ! nat (last ct0))]"
    by (simp add: expand_def Let_def nh3_def nh2_def nh1_def cs_def ct_def)
  have lcs: "length cs = ?k"
    by (simp add: cs_def lct)
  have nlp: "?nl ! p \<in> set ?nl"
    using p by simp
  have nlp_less: "?nl ! p < length heads"
    using nlp cyc by (auto simp: noncycle_locs_def set_np_where)
  have notcl: "?nl ! p \<notin> set ?cl"
    using nlp cycle_noncycle_disjoint [of cycle] by blast
  have inj: "inj_on (\<lambda>i. ?nl ! i) (set P)" if "set P \<subseteq> {..<?k}" for P
  proof (rule inj_onI)
    fix x y assume xy: "x \<in> set P" "y \<in> set P" "?nl ! x = ?nl ! y"
    with that have "x < ?k" "y < ?k"
      by auto
    with xy(3) show "x = y"
      by (simp add: noncycle_locs_def nth_eq_iff_index_eq)
  qed
  have s1: "select cs ?nl = map (\<lambda>i. ?nl ! i) (np_where cs)"
    by (rule select_np_where) (simp add: lcs)
  have v1: "map (\<lambda>h. int (?nl ! nat h)) (select cs ct) = map (\<lambda>i. int (?nl ! nat (ct ! i))) (np_where cs)"
    by (simp add: select_np_where lcs lct comp_def)
  have s2: "select (map Not cs) ?nl = map (\<lambda>i. ?nl ! i) (np_where (map Not cs))"
    by (rule select_np_where) (simp add: lcs)
  have v2: "map (\<lambda>d. int (?cl ! d)) (select (map Not cs) ?md) =
      map (\<lambda>i. int (?cl ! (?md ! i))) (np_where (map Not cs))"
    by (simp add: select_np_where lcs comp_def)
  have sub1: "set (np_where cs) \<subseteq> {..<?k}" and sub2: "set (np_where (map Not cs)) \<subseteq> {..<?k}"
    by (auto simp: set_np_where lcs)
  have csp: "cs ! p = (ct0 ! p < int ?k)"
    using p by (simp add: cs_def lct ctp)
  have "nh2 ! (?nl ! p) = (if ct0 ! p < int ?k then int (?nl ! nat (ct0 ! p)) else int (?cl ! (?md ! p)))"
  proof (cases "ct0 ! p < int ?k")
    case True
    then have pin: "p \<in> set (np_where cs)"
      using p csp by (simp add: set_np_where lcs)
    have "?nl ! p \<notin> set (select (map Not cs) ?nl)"
    proof
      assume "?nl ! p \<in> set (select (map Not cs) ?nl)"
      then obtain q where q: "q \<in> set (np_where (map Not cs))" "?nl ! q = ?nl ! p"
        unfolding s2 by auto
      then have "q < ?k"
        using sub2 by auto
      with q(2) p have "q = p"
        by (simp add: noncycle_locs_def nth_eq_iff_index_eq)
      with q(1) True csp p show False
        by (simp add: set_np_where lcs)
    qed
    then have "nh2 ! (?nl ! p) = nh1 ! (?nl ! p)"
      unfolding nh2_def by (rule scatter_nth_notin)
    also have "\<dots> = int (?nl ! nat (ct ! p))"
      unfolding nh1_def s1 v1
      using scatter_map_in [where f = "\<lambda>i. ?nl ! i" and g = "\<lambda>i. int (?nl ! nat (ct ! i))"
          and xs = "replicate (length heads) (- 1)", OF inj [OF sub1] pin] nlp_less
      by simp
    finally show ?thesis
      using True by (simp add: ctp p)
  next
    case False
    then have pin: "p \<in> set (np_where (map Not cs))"
      using p csp by (simp add: set_np_where lcs)
    have "nh2 ! (?nl ! p) = int (?cl ! (?md ! p))"
      unfolding nh2_def s2 v2
      using scatter_map_in [where f = "\<lambda>i. ?nl ! i" and g = "\<lambda>i. int (?cl ! (?md ! i))"
          and xs = nh1, OF inj [OF sub2] pin] nlp_less
      by (simp add: nh1_def)
    with False show ?thesis
      by simp
  qed
  moreover have "nh3 ! (?nl ! p) = nh2 ! (?nl ! p)"
    unfolding nh3_def using notcl by (rule scatter_nth_notin)
  moreover have "?cl ! (?mh ! nat (last ct0)) \<noteq> ?nl ! p"
    using root notcl by (metis nth_mem)
  ultimately show ?thesis
    unfolding ex by simp
qed

lemma expand_cycle:
  assumes cyc: "length cycle = length heads"
    and q: "q < length (cycle_locs cycle)"
    and root: "metanode_heads m heads cycle ! nat (last ct0) < length (cycle_locs cycle)"
  shows "expand m heads cycle ct0 ! (cycle_locs cycle ! q) =
    (if q = metanode_heads m heads cycle ! nat (last ct0)
     then int (noncycle_locs cycle ! nat (last ct0))
     else heads ! (cycle_locs cycle ! q))"
proof -
  let ?nl = "noncycle_locs cycle" and ?cl = "cycle_locs cycle"
  let ?md = "metanode_deps m cycle" and ?mh = "metanode_heads m heads cycle"
  obtain nh2 where ex: "expand m heads cycle ct0 =
      (scatter nh2 ?cl (map (\<lambda>c. heads ! c) ?cl))[?cl ! (?mh ! nat (last ct0)) := int (?nl ! nat (last ct0))]"
    and l2: "length nh2 = length heads"
    by (simp add: expand_def Let_def)
  have clq: "?cl ! q < length heads"
    using nth_mem [OF q] cyc by (auto simp: cycle_locs_def set_np_where)
  have "scatter nh2 (map (\<lambda>c. c) ?cl) (map (\<lambda>c. heads ! c) ?cl) ! (?cl ! q) = heads ! (?cl ! q)"
    using scatter_map_in [where f = "\<lambda>c. c" and g = "\<lambda>c. heads ! c" and xs = nh2
        and P = ?cl and p = "?cl ! q"] nth_mem [OF q] clq l2
    by simp
  then have s: "scatter nh2 ?cl (map (\<lambda>c. heads ! c) ?cl) ! (?cl ! q) = heads ! (?cl ! q)"
    by simp
  have iff: "(?cl ! q = ?cl ! (?mh ! nat (last ct0))) = (q = ?mh ! nat (last ct0))"
    using q root by (simp add: cycle_locs_def nth_eq_iff_index_eq)
  show ?thesis
  proof (cases "q = ?mh ! nat (last ct0)")
    case True
    have "?cl ! q < length (scatter nh2 ?cl (map (\<lambda>c. heads ! c) ?cl))"
      using clq l2 by simp
    then show ?thesis
      unfolding ex True [symmetric] by simp
  next
    case False
    with iff have "?cl ! (?mh ! nat (last ct0)) \<noteq> ?cl ! q"
      by auto
    then show ?thesis
      unfolding ex using s False by simp
  qed
qed

lemma subscores_row_length:
  "a < Suc (length (noncycle_locs cycle)) \<Longrightarrow>
   length (subscores m heads cycle ! a) = Suc (length (noncycle_locs cycle))"
  by (auto simp: subscores_def Let_def nth_append nth_list_update simp del: upt_Suc)

lemma length_subscores_noncycle:
  "length (subscores m heads cycle) = Suc (length (noncycle_locs cycle))"
  by (simp add: subscores_def Let_def)

lemma square_subscores: "square_matrix (subscores m heads cycle)"
  unfolding square_matrix_def list_all_length
  using subscores_row_length [of _ cycle m heads]
  by (simp add: length_subscores_noncycle)

lemma nth_Cons_replicate: "(x # replicate k x) ! k = x"
  by (metis lessI nth_replicate replicate_Suc)

lemma subscores_cell:
  assumes "a \<le> length (noncycle_locs cycle)" "b \<le> length (noncycle_locs cycle)"
  shows "subscores m heads cycle ! a ! b =
    (if a < length (noncycle_locs cycle) then
       (if b < length (noncycle_locs cycle) then m ! (noncycle_locs cycle ! a) ! (noncycle_locs cycle ! b)
        else metanode_dep_scores m cycle ! a ! (metanode_deps m cycle ! a))
     else
       (if b < length (noncycle_locs cycle)
        then metanode_head_scores m heads cycle ! (metanode_heads m heads cycle ! b) ! b
        else Fin 0))"
  using assms
  by (auto simp: subscores_def Let_def nth_append nth_list_update nth_Cons_replicate simp del: upt_Suc)

section \<open>Parts and part structures\<close>

text \<open>Modelled from the spec: the part classes of \<open>dependency_parts.py\<close>, which is not
  among the sources.  The spec (section 3) gives the variants and their fields; token
  positions, labels and indices are natural numbers.  A field that a variant does not
  have is not read by the code below.\<close>

datatype part =
    is_Arc: Arc (head: nat) (modifier: nat)
  | is_LabeledArc: LabeledArc (head: nat) (modifier: nat) (label: nat)
  | is_NextSibling: NextSibling (head: nat) (modifier: nat) (sibling: nat)
  | is_Grandparent: Grandparent (grandparent: nat) (head: nat) (modifier: nat)
  | is_GrandSibling: GrandSibling (grandparent: nat) (head: nat) (modifier: nat) (sibling: nat)

text \<open>\<open>PartStructure\<close>: three parallel lists.\<close>

record part_structure =
  ps_parts :: "part list"
  ps_scores :: "real list"
  ps_indices :: "nat list"

definition ps_append :: "part_structure \<Rightarrow> part \<Rightarrow> real \<Rightarrow> nat \<Rightarrow> part_structure" where
  "ps_append s p score index =
     s\<lparr>ps_parts := ps_parts s @ [p], ps_scores := ps_scores s @ [score],
       ps_indices := ps_indices s @ [index]\<rparr>"

definition create_empty_structures :: "nat \<Rightarrow> part_structure list" where
  "create_empty_structures n = replicate n \<lparr>ps_parts = [], ps_scores = [], ps_indices = []\<rparr>"

text \<open>The test of \<open>_populate_structure_list\<close> that chooses the side.\<close>

definition is_right :: "part \<Rightarrow> bool" where
  "is_right p =
     (if is_NextSibling p \<or> is_GrandSibling p then sibling p > head p
      else modifier p > head p)"

text \<open>The loop of \<open>_populate_structure_list\<close> over \<open>enumerate(part_list)\<close>; the two lists
  of structures are updated in place, so they are returned.  \<open>scores\<close> and \<open>offset\<close> are
  \<open>scores[type_]\<close> and \<open>parts.get_type_offset(type_)\<close>.  A head or a position outside a
  list raises IndexError.\<close>

fun populate_loop ::
  "part_structure list \<Rightarrow> part_structure list \<Rightarrow> (nat \<times> part) list \<Rightarrow> real list \<Rightarrow> nat \<Rightarrow>
     error + (part_structure list \<times> part_structure list)" where
  "populate_loop left_list right_list [] scores offset = Inr (left_list, right_list)"
| "populate_loop left_list right_list ((i, p) # rest) scores offset =
     (if is_right p then
        (if head p < length right_list \<and> i < length scores then
           populate_loop left_list
             (right_list[head p := ps_append (right_list ! head p) p (scores ! i) (i + offset)])
             rest scores offset
         else Inl IndexError)
      else
        (if head p < length left_list \<and> i < length scores then
           populate_loop
             (left_list[head p := ps_append (left_list ! head p) p (scores ! i) (i + offset)])
             right_list rest scores offset
         else Inl IndexError))"

definition populate_structure_list ::
  "part_structure list \<Rightarrow> part_structure list \<Rightarrow> part list \<Rightarrow> real list \<Rightarrow> nat \<Rightarrow>
     error + (part_structure list \<times> part_structure list)" where
  "populate_structure_list left_list right_list part_list scores offset =
     populate_loop left_list right_list (enumerate 0 part_list) scores offset"

section \<open>Label selection (\<open>decode_labels\<close>) and output assembly (\<open>decode\<close>)\<close>

text \<open>\<open>a.reshape(-1, k)\<close> of a one-dimensional array whose length is a multiple of
  \<open>k > 0\<close>: its rows.\<close>

fun reshape_rows :: "nat \<Rightarrow> 'a list \<Rightarrow> 'a list list" where
  "reshape_rows k xs = (if k = 0 \<or> xs = [] then [] else take k xs # reshape_rows k (drop k xs))"

declare reshape_rows.simps [simp del]

text \<open>\<open>decode_labels\<close>, on \<open>scores[Target.RELATIONS]\<close> and \<open>parts.num_relations\<close>.  numpy
  raises ValueError when the array cannot be reshaped, or has rows of width 0.\<close>

definition decode_labels :: "real list \<Rightarrow> nat \<Rightarrow> error + (nat list \<times> real list)" where
  "decode_labels relation_scores num_relations =
     (if num_relations = 0 \<or> length relation_scores mod num_relations \<noteq> 0 then Inl ValueError
      else
        (let rows = reshape_rows num_relations relation_scores;
             best_labels = map argmax rows;
             best_label_scores = map2 (\<lambda>row l. row ! l) rows best_labels
         in Inr (best_labels, best_label_scores)))"

text \<open>Modelled from the spec: the attributes of \<open>DependencyParts\<close> (not among the sources)
  that \<open>decode\<close> reads: \<open>len(parts)\<close>, \<open>num_arcs\<close>, \<open>num_labeled_arcs\<close>, \<open>num_relations\<close>
  and \<open>labeled\<close>.\<close>

record dependency_parts =
  len_parts :: nat
  num_arcs :: nat
  num_labeled_arcs :: nat
  num_relations :: nat
  labeled :: bool

text \<open>The attributes of the \<open>FactorGraph\<close> wrapper that \<open>decode\<close> reads after the build.\<close>

record graph_wrapper =
  arcs :: "(nat \<times> nat) list"
  best_labels :: "nat list"
  additional_indices :: "nat list"

text \<open>The loop over \<open>zip(additional_indices, additional_posteriors)\<close>.\<close>

fun write_additional :: "real list \<Rightarrow> (nat \<times> real) list \<Rightarrow> error + real list" where
  "write_additional predicted_output [] = Inr predicted_output"
| "write_additional predicted_output ((index, score) # rest) =
     (if index < length predicted_output
      then write_additional (predicted_output[index := score]) rest
      else Inl IndexError)"

text \<open>The loop over \<open>range(len(graph_wrapper.arcs))\<close>, with the running \<open>offset\<close>.\<close>

fun write_labels ::
  "real list \<Rightarrow> nat \<Rightarrow> nat \<Rightarrow> nat list \<Rightarrow> real list \<Rightarrow> nat list \<Rightarrow> error + real list" where
  "write_labels predicted_output offset nr labels posteriors [] = Inr predicted_output"
| "write_labels predicted_output offset nr labels posteriors (i # rest) =
     (if i < length labels \<and> i < length posteriors \<and> offset + labels ! i < length predicted_output
      then write_labels (predicted_output[offset + labels ! i := posteriors ! i])
             (offset + nr) nr labels posteriors rest
      else Inl IndexError)"

text \<open>\<open>decode\<close> from the solver's answer on: \<open>posteriors\<close> and \<open>additional_posteriors\<close> are
  what \<open>solve_lp_map_ad3\<close> returned.  After the two assertions the slice
  \<open>predicted_output[:num_arcs]\<close> has the length of \<open>posteriors\<close>.\<close>

definition decode ::
  "dependency_parts \<Rightarrow> graph_wrapper \<Rightarrow> real list \<Rightarrow> real list \<Rightarrow> error + real list" where
  "decode parts gw posteriors additional_posteriors =
     (if length posteriors \<noteq> num_arcs parts then Inl AssertionError
      else if int (length additional_posteriors) \<noteq>
                int (len_parts parts) - int (num_arcs parts) - int (num_labeled_arcs parts)
        then Inl AssertionError
      else
        (let predicted_output = replicate (len_parts parts) 0;
             predicted_output = posteriors @ drop (num_arcs parts) predicted_output
         in case write_additional predicted_output
                   (zip (additional_indices gw) additional_posteriors) of
              Inl e \<Rightarrow> Inl e
            | Inr predicted_output \<Rightarrow>
                if labeled parts
                then write_labels predicted_output (num_arcs parts) (num_relations parts)
                       (best_labels gw) posteriors [0..<length (arcs gw)]
                else Inr predicted_output))"

section \<open>Pruning mask (\<open>decode_marginals\<close>, \<open>generate_arc_mask\<close>)\<close>

text \<open>\<open>decode_marginals\<close> after the call of \<open>decode_matrix_tree\<close>, which belongs to the
  external solver library: the marginals it returns are a parameter, and negative ones
  are set to 0.\<close>

definition decode_marginals :: "real list \<Rightarrow> real list" where
  "decode_marginals marginals = map (\<lambda>p. if p < 0 then 0 else p) marginals"

text \<open>\<open>candidate_heads\<close>, a \<open>defaultdict(list)\<close>: an association list in insertion order.\<close>

definition dict_append :: "('k \<times> 'v list) list \<Rightarrow> 'k \<Rightarrow> 'v \<Rightarrow> ('k \<times> 'v list) list" where
  "dict_append d k v =
     (if k \<in> fst ` set d then map (\<lambda>(k', vs). if k' = k then (k', vs @ [v]) else (k', vs)) d
      else d @ [(k, [v])])"

definition add_candidate ::
  "(nat \<times> nat) \<times> real \<Rightarrow> (nat \<times> (nat \<times> real) list) list \<Rightarrow> (nat \<times> (nat \<times> real) list) list" where
  "add_candidate arc_prob d = (case arc_prob of ((h, m), prob) \<Rightarrow> dict_append d m (h, prob))"

definition candidate_heads ::
  "(nat \<times> nat) list \<Rightarrow> real list \<Rightarrow> (nat \<times> (nat \<times> real) list) list" where
  "candidate_heads arc_list marginals = fold add_candidate (zip arc_list marginals) []"

text \<open>The body of the loop over the modifiers, up to the inner loop: the stable sort by
  decreasing probability, the cut to \<open>max_heads\<close> unless the best probability is 0, and
  the inner loop's \<open>break\<close> at the first probability below the absolute threshold.  The
  value is the list of pairs whose cell the inner loop sets.\<close>

definition kept_heads :: "nat \<Rightarrow> real option \<Rightarrow> (nat \<times> real) list \<Rightarrow> (nat \<times> real) list" where
  "kept_heads max_heads threshold hps =
     (let heads_and_probabilities = sort_key (\<lambda>(h, p). - p) hps;
          max_score = snd (hd heads_and_probabilities);
          heads_and_probabilities =
            (if max_score = 0 then heads_and_probabilities
             else take max_heads heads_and_probabilities)
      in case threshold of
           None \<Rightarrow> heads_and_probabilities
         | Some t \<Rightarrow> takeWhile (\<lambda>(h, p). \<not> p < t * max_score) heads_and_probabilities)"

text \<open>Whether the loop body logs its message for this modifier.\<close>

definition logs_truncation :: "(nat \<times> real) list \<Rightarrow> bool" where
  "logs_truncation hps = (snd (hd (sort_key (\<lambda>(h, p). - p) hps)) = 0)"

definition set_cell :: "bool list list \<Rightarrow> nat \<Rightarrow> nat \<Rightarrow> bool list list" where
  "set_cell new_mask h m = new_mask[h := (new_mask ! h)[m := True]]"

text \<open>One round of the loop over the modifiers: the inner loop sets the cells of the
  kept heads.\<close>

definition mark_modifier ::
  "nat \<Rightarrow> real option \<Rightarrow> nat \<times> (nat \<times> real) list \<Rightarrow> bool list list \<Rightarrow> bool list list" where
  "mark_modifier max_heads threshold entry new_mask =
     (case entry of (m, hps) \<Rightarrow>
        fold (\<lambda>head_prob new_mask. set_cell new_mask (fst head_prob) m)
          (kept_heads max_heads threshold hps) new_mask)"

text \<open>\<open>generate_arc_mask\<close>: \<open>n\<close> is the side of \<open>parts.arc_mask\<close>, \<open>arc_list\<close> the pairs of
  \<open>parts.get_arc_indices()\<close>; \<open>marginals\<close> and \<open>entropy\<close> are what \<open>decode_matrix_tree\<close>
  returned.  The third component lists the modifiers for which the message is logged.\<close>

definition generate_arc_mask ::
  "nat \<Rightarrow> (nat \<times> nat) list \<Rightarrow> real list \<Rightarrow> real \<Rightarrow> nat \<Rightarrow> real option \<Rightarrow>
     bool list list \<times> real \<times> nat list" where
  "generate_arc_mask n arc_list marginals entropy max_heads threshold =
     (let marginals = decode_marginals marginals;
          cands = candidate_heads arc_list marginals;
          new_mask = replicate n (replicate n False);
          new_mask = fold (mark_modifier max_heads threshold) cands new_mask;
          logged = map fst (filter (\<lambda>entry. logs_truncation (snd entry)) cands)
      in (new_mask, entropy, logged))"

section \<open>Grandparent head automata (\<open>FactorGraph.create_gp_head_automata\<close>)\<close>

text \<open>The factors that the builder declares in the external solver's graph, each with the
  arguments of its \<open>initialize\<close> call and its additional log-potentials; a binary variable
  is named by its position in \<open>variables\<close>.\<close>

datatype factor =
    FactorHeadAutomaton "nat list" "(nat \<times> nat) list" "(nat \<times> nat \<times> nat) list" "real list"
  | FactorGrandparentHeadAutomaton "nat list" "(nat \<times> nat) list" "(nat \<times> nat) list"
      "(nat \<times> nat \<times> nat) list" "(nat \<times> nat \<times> nat) list"
      "(nat \<times> nat \<times> nat \<times> nat) list option" "real list"

text \<open>The attributes of the \<open>FactorGraph\<close> object that the construction of the automata
  reads and writes; \<open>fg_graph\<close> is the list of factors declared so far.\<close>

record factor_graph =
  fg_arc_index :: "int list list"
  fg_left_siblings :: "part_structure list"
  fg_right_siblings :: "part_structure list"
  fg_left_grandparents :: "part_structure list"
  fg_right_grandparents :: "part_structure list"
  fg_left_grandsiblings :: "part_structure list"
  fg_right_grandsiblings :: "part_structure list"
  fg_use_grandsiblings :: bool
  fg_graph :: "factor list"
  fg_additional_indices :: "nat list"

text \<open>\<open>xs[i]\<close> for a Python integer \<open>i\<close>: negative positions count from the end.\<close>

definition py_nth :: "'a list \<Rightarrow> int \<Rightarrow> error + 'a" where
  "py_nth xs i =
     (if 0 \<le> i \<and> i < int (length xs) then Inr (xs ! nat i)
      else if - int (length xs) \<le> i \<and> i < 0 then Inr (xs ! nat (int (length xs) + i))
      else Inl IndexError)"

text \<open>\<open>self.arc_index[g, h]\<close>.\<close>

definition arc_index_at :: "int list list \<Rightarrow> nat \<Rightarrow> nat \<Rightarrow> error + int" where
  "arc_index_at arc_index g h =
     (if g < length arc_index \<and> h < length (arc_index ! g) then Inr (arc_index ! g ! h)
      else Inl IndexError)"

text \<open>A list comprehension whose element expression may raise.\<close>

fun map_err :: "('a \<Rightarrow> error + 'b) \<Rightarrow> 'a list \<Rightarrow> error + 'b list" where
  "map_err f [] = Inr []"
| "map_err f (x # xs) =
     (case f x of
        Inl e \<Rightarrow> Inl e
      | Inr y \<Rightarrow> (case map_err f xs of Inl e \<Rightarrow> Inl e | Inr ys \<Rightarrow> Inr (y # ys)))"

text \<open>\<open>PartStructure.get_arcs(sort_decreasing)\<close> with its default field names: the set of
  \<open>(head, modifier)\<close> pairs of the parts whose head and modifier differ, sorted by modifier.\<close>

definition get_arcs :: "part_structure \<Rightarrow> bool \<Rightarrow> (nat \<times> nat) list" where
  "get_arcs s sort_decreasing =
     (let arc_set = remdups (map (\<lambda>p. (head p, modifier p))
                      (filter (\<lambda>p. head p \<noteq> modifier p) (ps_parts s)));
          arc_list = sort_key snd arc_set
      in if sort_decreasing then rev arc_list else arc_list)"

text \<open>The body of the method \<open>_create_head_automata(self, structures, variables,
  decreasing)\<close>.\<close>

fun create_head_automata_body ::
  "part_structure list \<Rightarrow> nat list \<Rightarrow> bool \<Rightarrow> factor_graph \<Rightarrow> error + factor_graph" where
  "create_head_automata_body [] variables decreasing fg = Inr fg"
| "create_head_automata_body (head_structure # rest) variables decreasing fg =
     (if length (ps_parts head_structure) = 0
      then create_head_automata_body rest variables decreasing fg
      else
        (let indices = ps_indices head_structure;
             arc_list = get_arcs head_structure decreasing
         in case map_err (\<lambda>arc. arc_index_at (fg_arc_index fg) (fst arc) (snd arc)) arc_list of
              Inl e \<Rightarrow> Inl e
            | Inr var_inds \<Rightarrow>
                (case map_err (py_nth variables) var_inds of
                   Inl e \<Rightarrow> Inl e
                 | Inr local_variables \<Rightarrow>
                     (let siblings = map (\<lambda>p. (head p, modifier p, sibling p)) (ps_parts head_structure);
                          f = FactorHeadAutomaton local_variables arc_list siblings
                                (ps_scores head_structure)
                      in create_head_automata_body rest variables decreasing
                           (fg\<lparr>fg_graph := fg_graph fg @ [f],
                               fg_additional_indices := fg_additional_indices fg @ indices\<rparr>)))))"

text \<open>A positional argument of a call, as Python passes it: an object, with no static
  type.\<close>

datatype pyarg =
    ArgStructures "part_structure list"
  | ArgGraph
  | ArgVariables "nat list"
  | ArgBool bool

text \<open>A call \<open>self._create_head_automata(args)\<close> of the bound method.  The method is
  declared with three parameters after \<open>self\<close>; Python binds the positional arguments to
  them and raises TypeError, before the body runs, when their number is not three.  (With
  three arguments of other kinds the body would fail on its first use of them.)\<close>

definition call_create_head_automata :: "pyarg list \<Rightarrow> factor_graph \<Rightarrow> error + factor_graph" where
  "call_create_head_automata args fg =
     (case args of
        [ArgStructures structures, ArgVariables variables, ArgBool decreasing] \<Rightarrow>
          create_head_automata_body structures variables decreasing fg
      | _ \<Rightarrow> Inl TypeError)"

text \<open>The inner function \<open>create_gp_head_automaton(structures, decreasing)\<close>; \<open>n\<close> is
  \<open>len(self.left_siblings)\<close>.  A head structure is the tuple that \<open>zip\<close> makes of two or
  three structures.\<close>

fun create_gp_head_automaton ::
  "nat \<Rightarrow> (part_structure \<times> part_structure \<times> part_structure option) list \<Rightarrow> nat list \<Rightarrow> bool \<Rightarrow>
     factor_graph \<Rightarrow> error + factor_graph" where
  "create_gp_head_automaton n [] variables decreasing fg = Inr fg"
| "create_gp_head_automaton n ((siblings_structure, grandparent_structure, grandsibling_structure) # rest)
       variables decreasing fg =
     (let sib_indices = ps_indices siblings_structure;
          sib_tuples = map (\<lambda>p. (head p, modifier p, sibling p)) (ps_parts siblings_structure);
          gp_indices = ps_indices grandparent_structure;
          gp_tuples = map (\<lambda>p. (grandparent p, head p, modifier p)) (ps_parts grandparent_structure)
      in if sib_tuples = [] then Inl IndexError
         else
           (let h = fst (hd sib_tuples)
            in case map_err (\<lambda>g. arc_index_at (fg_arc_index fg) g h) [0..<n] of
                 Inl e \<Rightarrow> Inl e
               | Inr row \<Rightarrow>
                   (let incoming = filter (\<lambda>(g, index). index \<ge> 0) (zip [0..<n] row);
                        incoming_var_inds = map snd incoming;
                        incoming_arcs = map (\<lambda>(g, index). (g, h)) incoming;
                        outgoing_arcs = get_arcs siblings_structure decreasing
                    in if length incoming_arcs = 0 then
                         (case call_create_head_automata
                                 [ArgStructures [siblings_structure], ArgGraph,
                                  ArgVariables variables, ArgBool decreasing] fg of
                            Inl e \<Rightarrow> Inl e
                          | Inr fg' \<Rightarrow> create_gp_head_automaton n rest variables decreasing fg')
                       else
                         (case map_err (\<lambda>arc. arc_index_at (fg_arc_index fg) (fst arc) (snd arc))
                                 outgoing_arcs of
                            Inl e \<Rightarrow> Inl e
                          | Inr outgoing_var_inds \<Rightarrow>
                              (case map_err (py_nth variables) (incoming_var_inds @ outgoing_var_inds) of
                                 Inl e \<Rightarrow> Inl e
                               | Inr local_variables \<Rightarrow>
                                   (let indices = gp_indices @ sib_indices;
                                        scores = ps_scores grandparent_structure
                                                   @ ps_scores siblings_structure;
                                        gsib_tuples = map_option
                                          (\<lambda>s. map (\<lambda>p. (grandparent p, head p, modifier p, sibling p))
                                                 (ps_parts s)) grandsibling_structure;
                                        scores = scores @ (case grandsibling_structure of
                                                             None \<Rightarrow> [] | Some s \<Rightarrow> ps_scores s);
                                        indices = indices @ (case grandsibling_structure of
                                                               None \<Rightarrow> [] | Some s \<Rightarrow> ps_indices s);
                                        f = FactorGrandparentHeadAutomaton local_variables
                                              incoming_arcs outgoing_arcs gp_tuples sib_tuples
                                              gsib_tuples scores
                                    in create_gp_head_automaton n rest variables decreasing
                                         (fg\<lparr>fg_graph := fg_graph fg @ [f],
                                             fg_additional_indices :=
                                               fg_additional_indices fg @ indices\<rparr>)))))))"

text \<open>\<open>zip\<close> of two or of three lists of structures.\<close>

definition zip_structures ::
  "bool \<Rightarrow> part_structure list \<Rightarrow> part_structure list \<Rightarrow> part_structure list \<Rightarrow>
     (part_structure \<times> part_structure \<times> part_structure option) list" where
  "zip_structures use_grandsiblings sibs gps gsibs =
     (if use_grandsiblings then map (\<lambda>(s, g, gs). (s, g, Some gs)) (zip sibs (zip gps gsibs))
      else map (\<lambda>(s, g). (s, g, None)) (zip sibs gps))"

text \<open>\<open>create_gp_head_automata(variables)\<close>: the left side, then the right side.\<close>

definition create_gp_head_automata :: "nat list \<Rightarrow> factor_graph \<Rightarrow> error + factor_graph" where
  "create_gp_head_automata variables fg =
     (let n = length (fg_left_siblings fg);
          left_structures = zip_structures (fg_use_grandsiblings fg) (fg_left_siblings fg)
                              (fg_left_grandparents fg) (fg_left_grandsiblings fg);
          right_structures = zip_structures (fg_use_grandsiblings fg) (fg_right_siblings fg)
                               (fg_right_grandparents fg) (fg_right_grandsiblings fg)
      in case create_gp_head_automaton n left_structures variables True fg of
           Inl e \<Rightarrow> Inl e
         | Inr fg' \<Rightarrow> create_gp_head_automaton n right_structures variables False fg')"
section \<open>Facts used by the claims\<close>

subsection \<open>Facts about \<open>_populate_structure_list\<close>\<close>

lemma populate_loop_indices:
  assumes "populate_loop left_list right_list ips scores offset = Inr (l', r')"
  shows "length l' = length left_list \<and> length r' = length right_list \<and>
    (\<forall>(i, p) \<in> set ips. head p < (if is_right p then length right_list else length left_list)) \<and>
    (\<forall>h < length right_list. ps_indices (r' ! h) =
       ps_indices (right_list ! h) @ map (\<lambda>(i, p). i + offset) (filter (\<lambda>(i, p). head p = h \<and> is_right p) ips)) \<and>
    (\<forall>h < length left_list. ps_indices (l' ! h) =
       ps_indices (left_list ! h) @ map (\<lambda>(i, p). i + offset) (filter (\<lambda>(i, p). head p = h \<and> \<not> is_right p) ips))"
  using assms
proof (induction ips arbitrary: left_list right_list)
  case Nil
  then show ?case by simp
next
  case (Cons ip ips)
  obtain i p where ip: "ip = (i, p)"
    by (cases ip)
  show ?case
  proof (cases "is_right p")
    case True
    with Cons.prems ip have ok: "head p < length right_list" "i < length scores"
      by (auto split: if_splits)
    let ?r = "right_list[head p := ps_append (right_list ! head p) p (scores ! i) (i + offset)]"
    from Cons.prems ip True ok have "populate_loop left_list ?r ips scores offset = Inr (l', r')"
      by simp
    from Cons.IH [OF this] ok True ip show ?thesis
      by (auto simp: nth_list_update ps_append_def)
  next
    case False
    with Cons.prems ip have ok: "head p < length left_list" "i < length scores"
      by (auto split: if_splits)
    let ?l = "left_list[head p := ps_append (left_list ! head p) p (scores ! i) (i + offset)]"
    from Cons.prems ip False ok have "populate_loop ?l right_list ips scores offset = Inr (l', r')"
      by simp
    from Cons.IH [OF this] ok False ip show ?thesis
      by (auto simp: nth_list_update ps_append_def)
  qed
qed

lemma enumerate_offset_mem:
  "i < length xs \<Longrightarrow>
   (i + offset \<in> (\<lambda>(i, p). i + offset) ` {ip \<in> set (enumerate 0 xs). P ip}) = P (i, xs ! i)"
  by (auto simp: in_set_enumerate_eq image_iff)

subsection \<open>Facts about label selection and output assembly\<close>

lemma reshape_rows_nth:
  "0 < k \<Longrightarrow> length xs = n * k \<Longrightarrow>
     length (reshape_rows k xs) = n \<and> (\<forall>i < n. reshape_rows k xs ! i = take k (drop (i * k) xs))"
proof (induction n arbitrary: xs)
  case 0
  then show ?case by (simp add: reshape_rows.simps)
next
  case (Suc n)
  then have ne: "xs \<noteq> []" by auto
  from Suc.prems have "length (drop k xs) = n * k" by simp
  from Suc.IH [OF Suc.prems(1) this]
  have IH: "length (reshape_rows k (drop k xs)) = n"
    "\<And>i. i < n \<Longrightarrow> reshape_rows k (drop k xs) ! i = take k (drop (i * k) (drop k xs))"
    by auto
  have eq: "reshape_rows k xs = take k xs # reshape_rows k (drop k xs)"
    using ne Suc.prems(1) by (subst reshape_rows.simps) simp
  show ?case
  proof (intro conjI allI impI)
    show "length (reshape_rows k xs) = Suc n"
      using eq IH(1) by simp
    fix i assume "i < Suc n"
    then show "reshape_rows k xs ! i = take k (drop (i * k) xs)"
      using eq IH(2) by (cases i) (auto simp: add.commute)
  qed
qed

lemma write_additional_spec:
  assumes "\<forall>x \<in> set (map fst ivs). x < length out" "distinct (map fst ivs)"
  shows "\<exists>out'. write_additional out ivs = Inr out' \<and> length out' = length out \<and>
    (\<forall>(i, v) \<in> set ivs. out' ! i = v) \<and>
    (\<forall>k. k \<notin> set (map fst ivs) \<longrightarrow> out' ! k = out ! k)"
  using assms
proof (induction ivs arbitrary: out)
  case Nil
  then show ?case by simp
next
  case (Cons iv ivs)
  obtain i v where iv: "iv = (i, v)" by (cases iv)
  with Cons.prems have i: "i < length out" "i \<notin> set (map fst ivs)" by auto
  from Cons.prems have "\<forall>x \<in> set (map fst ivs). x < length (out[i := v])" "distinct (map fst ivs)"
    by auto
  from Cons.IH [OF this] obtain out' where o: "write_additional (out[i := v]) ivs = Inr out'"
    "length out' = length out" "\<forall>(i, v) \<in> set ivs. out' ! i = v"
    "\<forall>k. k \<notin> set (map fst ivs) \<longrightarrow> out' ! k = out[i := v] ! k"
    by auto
  from o(4) i have "out' ! i = v" by simp
  with o i iv show ?case
    by (auto simp: nth_list_update)
qed

lemma write_labels_spec:
  assumes "n \<le> length labels" "n \<le> length posteriors" "\<forall>i < n. labels ! i < nr"
    "base + n * nr \<le> length out" "i0 \<le> n"
  shows "\<exists>out'. write_labels out (base + i0 * nr) nr labels posteriors [i0..<n] = Inr out' \<and>
    length out' = length out \<and>
    (\<forall>i l. i0 \<le> i \<and> i < n \<and> l < nr \<longrightarrow>
        out' ! (base + i * nr + l) = (if l = labels ! i then posteriors ! i else out ! (base + i * nr + l))) \<and>
    (\<forall>k. (k < base + i0 * nr \<or> base + n * nr \<le> k) \<longrightarrow> out' ! k = out ! k)"
  using assms(4,5)
proof (induction "n - i0" arbitrary: i0 out)
  case 0
  then show ?case by simp
next
  case (Suc d)
  then have i0: "i0 < n" by simp
  have lab: "labels ! i0 < nr" using assms(3) i0 by simp
  have "base + i0 * nr + nr \<le> base + n * nr"
    using i0 by (metis Suc_leI add.assoc add_le_cancel_left mult_Suc mult_le_mono1 add.commute)
  with lab Suc.prems have pos: "base + i0 * nr + labels ! i0 < length out" by simp
  let ?out = "out[base + i0 * nr + labels ! i0 := posteriors ! i0]"
  have upt: "[i0..<n] = i0 # [Suc i0..<n]" using i0 by (simp add: upt_rec)
  from Suc have "d = n - Suc i0" by simp
  from Suc.hyps(1) [OF this, of ?out] Suc.prems i0
  obtain out' where o: "write_labels ?out (base + Suc i0 * nr) nr labels posteriors [Suc i0..<n] = Inr out'"
    "length out' = length out"
    "\<forall>i l. Suc i0 \<le> i \<and> i < n \<and> l < nr \<longrightarrow>
        out' ! (base + i * nr + l) = (if l = labels ! i then posteriors ! i else ?out ! (base + i * nr + l))"
    "\<forall>k. (k < base + Suc i0 * nr \<or> base + n * nr \<le> k) \<longrightarrow> out' ! k = ?out ! k"
    by auto
  have run: "write_labels out (base + i0 * nr) nr labels posteriors [i0..<n] = Inr out'"
    using o(1) i0 assms(1,2) pos by (simp add: upt add.assoc add.commute[of nr])
  have later: "out' ! (base + i * nr + l) = (if l = labels ! i then posteriors ! i else out ! (base + i * nr + l))"
    if "Suc i0 \<le> i" "i < n" "l < nr" for i l
  proof -
    have "base + i0 * nr + labels ! i0 < base + i * nr + l"
    proof -
      have "Suc i0 * nr \<le> i * nr" using that(1) by (rule mult_le_mono1)
      then show ?thesis using lab by simp
    qed
    then have "?out ! (base + i * nr + l) = out ! (base + i * nr + l)" by simp
    with o(3) that show ?thesis by simp
  qed
  have here: "out' ! (base + i0 * nr + l) = (if l = labels ! i0 then posteriors ! i0 else out ! (base + i0 * nr + l))"
    if "l < nr" for l
  proof -
    have "base + i0 * nr + l < base + Suc i0 * nr" using that by simp
    with o(4) have "out' ! (base + i0 * nr + l) = ?out ! (base + i0 * nr + l)" by blast
    then show ?thesis using pos by (simp add: nth_list_update)
  qed
  have before: "out' ! k = out ! k" if "k < base + i0 * nr \<or> base + n * nr \<le> k" for k
  proof -
    from that \<open>base + i0 * nr + nr \<le> base + n * nr\<close> lab
    have "k < base + Suc i0 * nr \<or> base + n * nr \<le> k" "k \<noteq> base + i0 * nr + labels ! i0"
      by auto
    then have "out' ! k = ?out ! k" "?out ! k = out ! k"
      using o(4) by (blast, simp)
    then show ?thesis by simp
  qed
  show ?case
  proof (intro exI conjI allI impI)
    show "write_labels out (base + i0 * nr) nr labels posteriors [i0..<n] = Inr out'" by (rule run)
    show "length out' = length out" by (rule o(2))
    fix i l assume "i0 \<le> i \<and> i < n \<and> l < nr"
    then show "out' ! (base + i * nr + l) = (if l = labels ! i then posteriors ! i else out ! (base + i * nr + l))"
      using later [of i l] here [of l] by (cases "i = i0") auto
  next
    fix k assume "k < base + i0 * nr \<or> base + n * nr \<le> k"
    then show "out' ! k = out ! k" by (rule before)
  qed
qed

lemma decode_labels_best:
  assumes "decode_labels relation_scores nr = Inr (bl, sc)" "length relation_scores = n * nr"
  shows "0 < nr \<and> length bl = n \<and>
    (\<forall>i < n. bl ! i = argmax (take nr (drop (i * nr) relation_scores)) \<and> bl ! i < nr)"
proof -
  from assms(1) have nr: "0 < nr"
    by (auto simp: decode_labels_def split: if_splits)
  from assms(1) nr have bl: "bl = map argmax (reshape_rows nr relation_scores)"
    by (auto simp: decode_labels_def Let_def split: if_splits)
  note rows = reshape_rows_nth [OF nr assms(2)]
  have "bl ! i = argmax (take nr (drop (i * nr) relation_scores)) \<and> bl ! i < nr" if "i < n" for i
  proof -
    have "i * nr + nr \<le> n * nr"
      using that by (metis Suc_leI mult_Suc mult_le_mono1 add.commute)
    then have len: "length (take nr (drop (i * nr) relation_scores)) = nr"
      using assms(2) by simp
    with nr have "take nr (drop (i * nr) relation_scores) \<noteq> []"
      by auto
    from argmax_less [OF this] len rows that show ?thesis
      by (simp add: bl)
  qed
  with nr rows show ?thesis
    by (simp add: bl)
qed

subsection \<open>Facts about the pruning mask\<close>

text \<open>The candidates of modifier \<open>m\<close> among the arcs paired with their marginals, in the
  order of the arcs.\<close>

definition cands_of :: "nat \<Rightarrow> ((nat \<times> nat) \<times> real) list \<Rightarrow> (nat \<times> real) list" where
  "cands_of m zs = map (\<lambda>((h, m'), p). (h, p)) (filter (\<lambda>((h, m'), p). m' = m) zs)"

lemma dict_append_fst:
  "map fst (map (\<lambda>(k', vs). if k' = k then (k', vs @ [v]) else (k', vs)) d) = map fst d"
  by (induction d) (simp_all add: case_prod_beta)

lemma dict_append_keys:
  "distinct (map fst d) \<Longrightarrow> distinct (map fst (dict_append d k v))"
proof (cases "k \<in> fst ` set d")
  case True
  assume "distinct (map fst d)"
  then show ?thesis
    using True by (simp only: dict_append_def if_True dict_append_fst)
next
  case False
  assume "distinct (map fst d)"
  then show ?thesis
    using False by (simp add: dict_append_def)
qed

lemma map_of_map_keyed:
  "map_of (map (\<lambda>(k', vs). if k' = k then (k', g vs) else (k', vs)) d) k' =
     (if k' = k then map_option g (map_of d k') else map_of d k')"
  by (induction d) auto

lemma dict_append_map_of:
  "map_of (dict_append d k v) k' =
     (if k' = k then Some (case map_of d k of None \<Rightarrow> [v] | Some vs \<Rightarrow> vs @ [v]) else map_of d k')"
proof (cases "k \<in> fst ` set d")
  case True
  then obtain vs where "map_of d k = Some vs"
    by (metis map_of_eq_None_iff not_Some_eq)
  with True show ?thesis
    by (simp add: dict_append_def map_of_map_keyed [where g = "\<lambda>vs. vs @ [v]"])
next
  case False
  then have "map_of d k = None"
    by (simp add: map_of_eq_None_iff)
  with False show ?thesis
    by (auto simp: dict_append_def map_add_def split: option.splits)
qed

lemma cands_of_Cons:
  "cands_of m (((h, m'), p) # zs) = (if m' = m then (h, p) # cands_of m zs else cands_of m zs)"
  by (simp add: cands_of_def)

lemma candidate_fold:
  assumes "distinct (map fst d)"
  shows "distinct (map fst (fold add_candidate zs d)) \<and>
    map_of (fold add_candidate zs d) m =
      (case map_of d m of
         None \<Rightarrow> if cands_of m zs = [] then None else Some (cands_of m zs)
       | Some l \<Rightarrow> Some (l @ cands_of m zs))"
  using assms
proof (induction zs arbitrary: d)
  case Nil
  then show ?case by (simp add: cands_of_def split: option.splits)
next
  case (Cons z zs)
  obtain h m' p where z: "z = ((h, m'), p)" by (cases z) auto
  let ?d = "dict_append d m' (h, p)"
  have "distinct (map fst ?d)"
    using Cons.prems by (rule dict_append_keys)
  note IH = Cons.IH [OF this]
  have step: "fold add_candidate (z # zs) d = fold add_candidate zs ?d"
    by (simp add: z add_candidate_def)
  have "map_of ?d m = (if m = m' then Some (case map_of d m' of None \<Rightarrow> [(h, p)] | Some vs \<Rightarrow> vs @ [(h, p)])
      else map_of d m)"
    by (rule dict_append_map_of)
  then have "(case map_of ?d m of
         None \<Rightarrow> if cands_of m zs = [] then None else Some (cands_of m zs)
       | Some l \<Rightarrow> Some (l @ cands_of m zs)) =
     (case map_of d m of
         None \<Rightarrow> if cands_of m (z # zs) = [] then None else Some (cands_of m (z # zs))
       | Some l \<Rightarrow> Some (l @ cands_of m (z # zs)))"
    unfolding z cands_of_Cons by (cases "m = m'"; cases "map_of d m") simp_all
  with IH show ?case
    unfolding step by simp
qed

lemma candidate_heads_map_of:
  "distinct (map fst (candidate_heads arc_list ms))"
  "map_of (candidate_heads arc_list ms) m =
     (if cands_of m (zip arc_list ms) = [] then None else Some (cands_of m (zip arc_list ms)))"
  using candidate_fold [of "[]" "zip arc_list ms" m]
  by (simp_all add: candidate_heads_def)

lemma cands_of_arc: "(h, p) \<in> set (cands_of m (zip arc_list ms)) \<Longrightarrow> (h, m) \<in> set arc_list \<and> p \<in> set ms"
  by (auto simp: cands_of_def dest: set_zip_leftD set_zip_rightD)

lemma decode_marginals_nonneg: "p \<in> set (decode_marginals ms) \<Longrightarrow> 0 \<le> p"
  by (auto simp: decode_marginals_def)

text \<open>An \<open>n x n\<close> boolean array.\<close>

definition mask_shape :: "nat \<Rightarrow> bool list list \<Rightarrow> bool" where
  "mask_shape n mk = (length mk = n \<and> (\<forall>i < n. length (mk ! i) = n))"

lemma set_cell_nth:
  assumes "mask_shape n mk" "h < n" "m < n"
  shows "mask_shape n (set_cell mk h m)"
    and "h' < n \<Longrightarrow> m' < n \<Longrightarrow> set_cell mk h m ! h' ! m' = (mk ! h' ! m' \<or> (h' = h \<and> m' = m))"
  using assms by (auto simp: mask_shape_def set_cell_def nth_list_update)

lemma mark_cells_nth:
  assumes "mask_shape n mk" "m < n" "\<forall>hp \<in> set ks. fst hp < n"
  shows "mask_shape n (fold (\<lambda>head_prob new_mask. set_cell new_mask (fst head_prob) m) ks mk) \<and>
    (\<forall>h' < n. \<forall>m' < n.
       fold (\<lambda>head_prob new_mask. set_cell new_mask (fst head_prob) m) ks mk ! h' ! m'
         = (mk ! h' ! m' \<or> (m' = m \<and> h' \<in> fst ` set ks)))"
  using assms
proof (induction ks arbitrary: mk)
  case Nil
  then show ?case by simp
next
  case (Cons k ks)
  from Cons.prems have k: "fst k < n" and ks: "\<forall>hp \<in> set ks. fst hp < n"
    by auto
  note sc = set_cell_nth [OF Cons.prems(1) k Cons.prems(2)]
  from Cons.IH [OF sc(1) Cons.prems(2) ks] sc(2) show ?case
    by auto
qed

lemma mark_modifier_nth:
  assumes "mask_shape n mk" "m < n" "\<forall>hp \<in> set (kept_heads max_heads threshold hps). fst hp < n"
  shows "mask_shape n (mark_modifier max_heads threshold (m, hps) mk) \<and>
    (\<forall>h' < n. \<forall>m' < n.
       mark_modifier max_heads threshold (m, hps) mk ! h' ! m'
         = (mk ! h' ! m' \<or> (m' = m \<and> h' \<in> fst ` set (kept_heads max_heads threshold hps))))"
  using mark_cells_nth [OF assms] by (simp add: mark_modifier_def)

lemma mark_all_nth:
  assumes "mask_shape n mk"
    "\<forall>e \<in> set cands. fst e < n \<and> (\<forall>hp \<in> set (kept_heads max_heads threshold (snd e)). fst hp < n)"
  shows "mask_shape n (fold (mark_modifier max_heads threshold) cands mk) \<and>
    (\<forall>h' < n. \<forall>m' < n.
       fold (mark_modifier max_heads threshold) cands mk ! h' ! m'
         = (mk ! h' ! m' \<or>
            (\<exists>e \<in> set cands. fst e = m' \<and> h' \<in> fst ` set (kept_heads max_heads threshold (snd e)))))"
  using assms
proof (induction cands arbitrary: mk)
  case Nil
  then show ?case by simp
next
  case (Cons e cands)
  obtain m hps where e: "e = (m, hps)" by (cases e)
  from Cons.prems e have m: "m < n" "\<forall>hp \<in> set (kept_heads max_heads threshold hps). fst hp < n"
    and rest: "\<forall>e \<in> set cands. fst e < n \<and> (\<forall>hp \<in> set (kept_heads max_heads threshold (snd e)). fst hp < n)"
    by auto
  note mm = mark_modifier_nth [OF Cons.prems(1) m]
  from mm have sh: "mask_shape n (mark_modifier max_heads threshold (m, hps) mk)"
    by blast
  note IH = Cons.IH [OF sh rest]
  show ?case
  proof (intro conjI allI impI)
    show "mask_shape n (fold (mark_modifier max_heads threshold) (e # cands) mk)"
      using IH by (simp add: e)
    fix h' m' assume "h' < n" "m' < n"
    then show "fold (mark_modifier max_heads threshold) (e # cands) mk ! h' ! m'
         = (mk ! h' ! m' \<or>
            (\<exists>e \<in> set (e # cands). fst e = m' \<and> h' \<in> fst ` set (kept_heads max_heads threshold (snd e))))"
      using IH mm by (simp add: e) blast
  qed
qed

lemma takeWhile_sorted_filter:
  "sorted (map f xs) \<Longrightarrow> takeWhile (\<lambda>x. f x \<le> c) xs = filter (\<lambda>x. f x \<le> c) xs"
proof (induction xs)
  case Nil
  then show ?case by simp
next
  case (Cons x xs)
  show ?case
  proof (cases "f x \<le> c")
    case True
    with Cons show ?thesis by simp
  next
    case False
    with Cons.prems have "\<forall>y \<in> set xs. \<not> f y \<le> c"
      by (auto simp: order.trans)
    then have "filter (\<lambda>x. f x \<le> c) xs = []"
      by (simp add: filter_empty_conv)
    with False show ?thesis by simp
  qed
qed

lemma kept_heads_filter:
  "kept_heads max_heads threshold hps =
     (let srt = sort_key (\<lambda>(h, p). - p) hps;
          best = snd (hd srt);
          cut = (if best = 0 then srt else take max_heads srt)
      in case threshold of
           None \<Rightarrow> cut
         | Some t \<Rightarrow> filter (\<lambda>(h, p). \<not> p < t * best) cut)"
proof (cases threshold)
  case None
  then show ?thesis by (simp add: kept_heads_def Let_def)
next
  case (Some t)
  let ?f = "\<lambda>(h :: nat, p :: real). - p"
  let ?srt = "sort_key ?f hps"
  let ?best = "snd (hd ?srt)"
  let ?cut = "if ?best = 0 then ?srt else take max_heads ?srt"
  have pred: "(\<lambda>(h :: nat, p). \<not> p < t * ?best) = (\<lambda>x. ?f x \<le> - (t * ?best))"
    by (auto simp: fun_eq_iff)
  have "sorted (map ?f ?srt)"
    by (rule sorted_sort_key)
  then have "sorted (take max_heads (map ?f ?srt))"
    by (rule sorted_wrt_take)
  with \<open>sorted (map ?f ?srt)\<close> have "sorted (map ?f ?cut)"
    by (simp add: take_map)
  then have "takeWhile (\<lambda>x. ?f x \<le> - (t * ?best)) ?cut = filter (\<lambda>x. ?f x \<le> - (t * ?best)) ?cut"
    by (rule takeWhile_sorted_filter)
  then show ?thesis
    unfolding kept_heads_def Let_def Some option.case pred .
qed

lemma kept_heads_subset: "set (kept_heads max_heads threshold hps) \<subseteq> set hps"
proof -
  have "set (take max_heads (sort_key (\<lambda>(h, p). - p) hps)) \<subseteq> set hps"
    using set_take_subset [of max_heads "sort_key (\<lambda>(h, p). - p) hps"] by simp
  then show ?thesis
    by (auto simp: kept_heads_filter Let_def split: option.splits)
qed

lemma kept_heads_nonempty:
  assumes "hps \<noteq> []" "1 \<le> max_heads" "\<forall>t. threshold = Some t \<longrightarrow> t \<le> 1"
    "\<forall>hp \<in> set hps. 0 \<le> snd hp"
  shows "kept_heads max_heads threshold hps \<noteq> []"
proof -
  let ?srt = "sort_key (\<lambda>(h, p). - p) hps"
  let ?best = "snd (hd ?srt)"
  let ?cut = "if ?best = 0 then ?srt else take max_heads ?srt"
  from assms(1) have ne: "?srt \<noteq> []"
    by (metis length_0_conv length_sort)
  then have "hd ?srt \<in> set hps"
    by (metis hd_in_set set_sort)
  with assms(4) have best: "0 \<le> ?best"
    by blast
  from ne assms(2) have cut: "?cut \<noteq> []" "hd ?cut = hd ?srt"
    by (auto simp: take_eq_Nil)
  have nb: "\<not> ?best < t * ?best" if "threshold = Some t" for t
  proof -
    from that assms(3) have "t \<le> 1" by blast
    with best have "t * ?best \<le> 1 * ?best" by (intro mult_right_mono)
    then show ?thesis by simp
  qed
  show ?thesis
  proof (cases threshold)
    case None
    with cut(1) show ?thesis
      by (simp add: kept_heads_filter Let_def)
  next
    case (Some t)
    from cut(1) have "hd ?cut \<in> set ?cut"
      by (rule hd_in_set)
    moreover have "\<not> snd (hd ?cut) < t * ?best"
      using nb [OF Some] cut(2) by simp
    ultimately have "hd ?cut \<in> set (filter (\<lambda>(h, p). \<not> p < t * ?best) ?cut)"
      by (simp add: case_prod_beta)
    then have "filter (\<lambda>(h, p). \<not> p < t * ?best) ?cut \<noteq> []"
      by (metis empty_iff empty_set)
    with Some show ?thesis
      by (simp add: kept_heads_filter Let_def)
  qed
qed

lemma candidate_heads_entry:
  assumes "e \<in> set (candidate_heads arc_list ms)"
  shows "snd e = cands_of (fst e) (zip arc_list ms)" and "cands_of (fst e) (zip arc_list ms) \<noteq> []"
proof -
  have "(fst e, snd e) \<in> set (candidate_heads arc_list ms)"
    using assms by simp
  with candidate_heads_map_of(1) have "map_of (candidate_heads arc_list ms) (fst e) = Some (snd e)"
    by (rule map_of_is_SomeI)
  then have "(if cands_of (fst e) (zip arc_list ms) = [] then None
              else Some (cands_of (fst e) (zip arc_list ms))) = Some (snd e)"
    by (simp only: candidate_heads_map_of(2))
  then show "snd e = cands_of (fst e) (zip arc_list ms)" and "cands_of (fst e) (zip arc_list ms) \<noteq> []"
    by (simp_all split: if_splits)
qed

lemma candidate_heads_mem:
  assumes "cands_of m (zip arc_list ms) \<noteq> []"
  shows "(m, cands_of m (zip arc_list ms)) \<in> set (candidate_heads arc_list ms)"
proof -
  have "map_of (candidate_heads arc_list ms) m = Some (cands_of m (zip arc_list ms))"
    using assms by (simp add: candidate_heads_map_of(2))
  then show ?thesis
    by (rule map_of_SomeD)
qed

lemma candidate_heads_in_range:
  assumes "\<forall>arc \<in> set arc_list. fst arc < n \<and> snd arc < n"
    and "e \<in> set (candidate_heads arc_list ms)"
  shows "fst e < n" and "\<forall>hp \<in> set (kept_heads max_heads threshold (snd e)). fst hp < n"
proof -
  let ?cs = "cands_of (fst e) (zip arc_list ms)"
  note ent = candidate_heads_entry [OF assms(2)]
  have arc: "fst hp < n \<and> fst e < n" if "hp \<in> set ?cs" for hp
  proof -
    from that have "(fst hp, snd hp) \<in> set ?cs"
      by simp
    then have "(fst hp, fst e) \<in> set arc_list"
      by (rule cands_of_arc [THEN conjunct1])
    with assms(1) show ?thesis
      by fastforce
  qed
  from ent(2) have "hd ?cs \<in> set ?cs"
    by (rule hd_in_set)
  then show "fst e < n"
    using arc by blast
  show "\<forall>hp \<in> set (kept_heads max_heads threshold (snd e)). fst hp < n"
  proof
    fix hp assume "hp \<in> set (kept_heads max_heads threshold (snd e))"
    then have "hp \<in> set ?cs"
      using kept_heads_subset [of max_heads threshold "snd e"] ent(1) by auto
    then show "fst hp < n"
      using arc by blast
  qed
qed

lemma generate_arc_mask_cell:
  assumes "\<forall>arc \<in> set arc_list. fst arc < n \<and> snd arc < n"
    and "cands_of m (zip arc_list (decode_marginals marginals)) \<noteq> []"
    and "h < n"
  shows "fst (generate_arc_mask n arc_list marginals entropy max_heads threshold) ! h ! m =
    (h \<in> fst ` set (kept_heads max_heads threshold (cands_of m (zip arc_list (decode_marginals marginals)))))"
proof -
  let ?dm = "decode_marginals marginals"
  let ?cands = "candidate_heads arc_list ?dm"
  let ?hps = "cands_of m (zip arc_list ?dm)"
  let ?kh = "kept_heads max_heads threshold"
  note mem = candidate_heads_mem [OF assms(2)]
  have m: "m < n"
    using candidate_heads_in_range(1) [OF assms(1) mem] by simp
  have shape: "mask_shape n (replicate n (replicate n False))"
    by (simp add: mask_shape_def)
  have inr: "\<forall>e \<in> set ?cands. fst e < n \<and> (\<forall>hp \<in> set (?kh (snd e)). fst hp < n)"
    using candidate_heads_in_range [OF assms(1)] by blast
  from mark_all_nth [OF shape inr] assms(3) m
  have "fold (mark_modifier max_heads threshold) ?cands (replicate n (replicate n False)) ! h ! m
      = (\<exists>e \<in> set ?cands. fst e = m \<and> h \<in> fst ` set (?kh (snd e)))"
    by simp
  also have "\<dots> = (h \<in> fst ` set (?kh ?hps))"
  proof
    assume "\<exists>e \<in> set ?cands. fst e = m \<and> h \<in> fst ` set (?kh (snd e))"
    then obtain e where e: "e \<in> set ?cands" "fst e = m" "h \<in> fst ` set (?kh (snd e))"
      by blast
    from candidate_heads_entry(1) [OF e(1)] e(2) have "snd e = ?hps"
      by simp
    with e(3) show "h \<in> fst ` set (?kh ?hps)"
      by simp
  next
    assume "h \<in> fst ` set (?kh ?hps)"
    with mem show "\<exists>e \<in> set ?cands. fst e = m \<and> h \<in> fst ` set (?kh (snd e))"
      by (intro bexI [of _ "(m, ?hps)"]) simp_all
  qed
  finally show ?thesis
    by (simp add: generate_arc_mask_def Let_def)
qed

subsection \<open>Facts about the single-root variant\<close>

lemma try_root_step:
  assumes "new_tree m r = Inr t"
  shows "try_root m r (Inr (b, bt)) =
    Inr (if list_all (\<lambda>p. NegInf < p) (tree_log_probs m r t) \<and> b < tree_score m r t
         then (tree_score m r t, Some t) else (b, bt))"
  using assms by (simp add: try_root_def)

text \<open>\<open>t\<close> is the tree found with \<open>r\<close> forced to be the root, and it has no \<open>-inf\<close> edge:
  the candidate is not discarded.\<close>

definition feasible_tree :: "matrix \<Rightarrow> nat \<Rightarrow> int list \<Rightarrow> bool" where
  "feasible_tree m r t = (new_tree m r = Inr t \<and> list_all (\<lambda>p. NegInf < p) (tree_log_probs m r t))"

lemma try_root_fold:
  assumes "m \<noteq> []"
  shows "\<exists>b bt. fold (try_root m) rs (Inr (b0, bt0)) = Inr (b, bt) \<and>
    (\<forall>r \<in> set rs. \<forall>t. feasible_tree m r t \<longrightarrow> tree_score m r t \<le> b) \<and>
    ((b = b0 \<and> bt = bt0) \<or>
     (\<exists>r \<in> set rs. \<exists>t. feasible_tree m r t \<and> b = tree_score m r t \<and> bt = Some t \<and> b0 < b))"
proof (induction rs arbitrary: b0 bt0)
  case Nil
  then show ?case by simp
next
  case (Cons r rs)
  from new_tree_returns [OF assms] obtain t where t: "new_tree m r = Inr t"
    by blast
  let ?ok = "list_all (\<lambda>p. NegInf < p) (tree_log_probs m r t) \<and> b0 < tree_score m r t"
  let ?b1 = "if ?ok then tree_score m r t else b0"
  let ?bt1 = "if ?ok then Some t else bt0"
  have step: "try_root m r (Inr (b0, bt0)) = Inr (?b1, ?bt1)"
    by (simp add: try_root_step [OF t])
  from Cons.IH [of ?b1 ?bt1] obtain b bt where
    run: "fold (try_root m) rs (Inr (?b1, ?bt1)) = Inr (b, bt)"
    and ub: "\<forall>r \<in> set rs. \<forall>t. feasible_tree m r t \<longrightarrow> tree_score m r t \<le> b"
    and pick: "(b = ?b1 \<and> bt = ?bt1) \<or>
      (\<exists>r \<in> set rs. \<exists>t. feasible_tree m r t \<and> b = tree_score m r t \<and> bt = Some t \<and> ?b1 < b)"
    by blast
  have b1: "b0 \<le> ?b1"
    by (auto intro: order.strict_implies_order)
  have b1b: "?b1 \<le> b"
    using pick by auto
  have feas_r: "tree_score m r t' \<le> b" if "feasible_tree m r t'" for t'
  proof -
    from that t have "t' = t" and "list_all (\<lambda>p. NegInf < p) (tree_log_probs m r t)"
      by (auto simp: feasible_tree_def)
    then have "tree_score m r t' \<le> ?b1"
      by auto
    with b1b show ?thesis
      by simp
  qed
  have "(b = b0 \<and> bt = bt0) \<or>
     (\<exists>r \<in> set (r # rs). \<exists>t. feasible_tree m r t \<and> b = tree_score m r t \<and> bt = Some t \<and> b0 < b)"
  proof (cases ?ok)
    case True
    then have ft: "feasible_tree m r t"
      by (simp add: feasible_tree_def t)
    from pick show ?thesis
    proof
      assume "b = ?b1 \<and> bt = ?bt1"
      with True ft show ?thesis
        by auto
    next
      assume "\<exists>r \<in> set rs. \<exists>t. feasible_tree m r t \<and> b = tree_score m r t \<and> bt = Some t \<and> ?b1 < b"
      then obtain r' t' where "r' \<in> set rs" "feasible_tree m r' t'" "b = tree_score m r' t'" "bt = Some t'" "?b1 < b"
        by blast
      moreover from this b1 have "b0 < b"
        by (meson le_less_trans)
      ultimately show ?thesis
        by auto
    qed
  next
    case False
    with pick show ?thesis
      by auto
  qed
  with run ub feas_r show ?case
    by (auto simp: step)
qed

lemma set_root_cell:
  assumes "square_matrix m" "rt < length m" "i < length m" "j < length m"
  shows "fst (set_root m rt) ! i ! j =
    (if i = rt then (if j = 0 then Fin 0 else NegInf)
     else if j = 0 \<and> 1 \<le> i then NegInf
     else m ! i ! j)"
  using assms square_matrixD(2) [of m i] square_matrixD(2) [of m rt]
  by (auto simp: set_root_def Let_def nth_list_update)

lemma roots_to_try_range: "rt \<in> set (roots_to_try tree) \<Longrightarrow> 1 \<le> rt \<and> rt < length tree"
  by (auto simp: roots_to_try_def np_where_def)
section \<open>Claims\<close>


text \<open>
  C3.  Two tokens, the arc \<open>(0, 1)\<close>, and one sibling part of head 0 on the left side.  No
  arc enters the root, so head 0 has no candidate grandparent arc and the builder takes
  the fallback; the call there passes four positional arguments (the sibling structure,
  \<open>self.graph\<close>, \<open>variables\<close>, \<open>decreasing\<close>) to a method that takes three, and the build
  ends with TypeError instead of a plain head automaton.
\<close>

theorem create_gp_head_automata_fallback_raises:
  "create_gp_head_automata [0]
     \<lparr>fg_arc_index = [[- 1, 0], [- 1, - 1]],
      fg_left_siblings = [\<lparr>ps_parts = [NextSibling 0 1 0], ps_scores = [1], ps_indices = [1]\<rparr>,
                          \<lparr>ps_parts = [], ps_scores = [], ps_indices = []\<rparr>],
      fg_right_siblings = [\<lparr>ps_parts = [], ps_scores = [], ps_indices = []\<rparr>,
                           \<lparr>ps_parts = [], ps_scores = [], ps_indices = []\<rparr>],
      fg_left_grandparents = [\<lparr>ps_parts = [], ps_scores = [], ps_indices = []\<rparr>,
                              \<lparr>ps_parts = [], ps_scores = [], ps_indices = []\<rparr>],
      fg_right_grandparents = [\<lparr>ps_parts = [], ps_scores = [], ps_indices = []\<rparr>,
                               \<lparr>ps_parts = [], ps_scores = [], ps_indices = []\<rparr>],
      fg_left_grandsiblings = [\<lparr>ps_parts = [], ps_scores = [], ps_indices = []\<rparr>,
                               \<lparr>ps_parts = [], ps_scores = [], ps_indices = []\<rparr>],
      fg_right_grandsiblings = [\<lparr>ps_parts = [], ps_scores = [], ps_indices = []\<rparr>,
                                \<lparr>ps_parts = [], ps_scores = [], ps_indices = []\<rparr>],
      fg_use_grandsiblings = False,
      fg_graph = [],
      fg_additional_indices = []\<rparr>
   = Inl TypeError"
  by code_simp


text \<open>
  C5.  A labeled decode assembles a vector as long as the part vocabulary: the Arc slice
  holds the arc posteriors, extra posterior \<open>j\<close> sits at \<open>index_map[j]\<close>, the LabeledArc
  slot \<open>num_arcs + i * num_relations + l\<close> of arc \<open>i\<close> holds the arc's posterior when \<open>l\<close>
  is the arc's arg-max label and 0 for every other label, and every slot outside the
  arcs, the labels and the index map is 0.  The index map (\<open>additional_indices\<close>) is that
  of a build: one distinct position per extra posterior, each in the region after the
  LabeledArc slice; the LabeledArc slice has \<open>num_relations\<close> slots per arc.
\<close>

theorem decode_output_assembly:
  assumes lab: "labeled parts"
    and arcs: "length (arcs gw) = num_arcs parts"
    and nla: "num_labeled_arcs parts = num_arcs parts * num_relations parts"
    and rs: "length relation_scores = num_arcs parts * num_relations parts"
    and dl: "decode_labels relation_scores (num_relations parts) = Inr (best_labels gw, label_scores)"
    and post: "length posteriors = num_arcs parts"
    and len: "num_arcs parts + num_labeled_arcs parts + length additional_posteriors = len_parts parts"
    and idx_len: "length (additional_indices gw) = length additional_posteriors"
    and idx_dist: "distinct (additional_indices gw)"
    and idx_range: "\<forall>x \<in> set (additional_indices gw).
          num_arcs parts + num_labeled_arcs parts \<le> x \<and> x < len_parts parts"
  shows "\<exists>out. decode parts gw posteriors additional_posteriors = Inr out \<and>
    length out = len_parts parts \<and>
    (\<forall>i < num_arcs parts. out ! i = posteriors ! i) \<and>
    (\<forall>j < length additional_posteriors. out ! (additional_indices gw ! j) = additional_posteriors ! j) \<and>
    (\<forall>i < num_arcs parts. \<forall>l < num_relations parts.
       best_labels gw ! i =
         argmax (take (num_relations parts) (drop (i * num_relations parts) relation_scores)) \<and>
       out ! (num_arcs parts + i * num_relations parts + l) =
         (if l = best_labels gw ! i then posteriors ! i else 0)) \<and>
    (\<forall>k < len_parts parts.
       num_arcs parts + num_labeled_arcs parts \<le> k \<and> k \<notin> set (additional_indices gw) \<longrightarrow> out ! k = 0)"
proof -
  let ?na = "num_arcs parts" and ?nr = "num_relations parts" and ?n = "len_parts parts"
  let ?idx = "additional_indices gw"
  let ?out1 = "posteriors @ drop ?na (replicate ?n (0::real))"
  let ?ivs = "zip ?idx additional_posteriors"
  note bl = decode_labels_best [OF dl rs]
  have l1: "length ?out1 = ?n"
    using post len by simp
  have out1: "?out1 ! k = (if k < ?na then posteriors ! k else 0)" if "k < ?n" for k
    using that post by (simp add: nth_append)
  have fst_ivs: "map fst ?ivs = ?idx"
    using idx_len by simp
  have "\<forall>x \<in> set (map fst ?ivs). x < length ?out1" "distinct (map fst ?ivs)"
    using idx_range idx_dist l1 unfolding fst_ivs by auto
  from write_additional_spec [OF this] obtain out2 where
    o2: "write_additional ?out1 ?ivs = Inr out2" "length out2 = ?n"
      "\<forall>(i, v) \<in> set ?ivs. out2 ! i = v"
      "\<forall>k. k \<notin> set ?idx \<longrightarrow> out2 ! k = ?out1 ! k"
    unfolding fst_ivs l1 by blast
  have "?na \<le> length (best_labels gw)" "?na \<le> length posteriors" "\<forall>i < ?na. best_labels gw ! i < ?nr"
    "?na + ?na * ?nr \<le> length out2" "0 \<le> ?na"
    using bl post len nla o2(2) by auto
  from write_labels_spec [OF this, of ]
  obtain out where
    o: "write_labels out2 ?na ?nr (best_labels gw) posteriors [0..<?na] = Inr out" "length out = ?n"
      "\<forall>i l. i < ?na \<and> l < ?nr \<longrightarrow>
        out ! (?na + i * ?nr + l) = (if l = best_labels gw ! i then posteriors ! i else out2 ! (?na + i * ?nr + l))"
      "\<forall>k. (k < ?na \<or> ?na + ?na * ?nr \<le> k) \<longrightarrow> out ! k = out2 ! k"
    using o2(2) by auto
  have run: "decode parts gw posteriors additional_posteriors = Inr out"
    using post len lab o2(1) o(1) arcs by (simp add: decode_def Let_def)
  have slot_range: "?na + i * ?nr + l < ?na + ?na * ?nr" if "i < ?na" "l < ?nr" for i l
  proof -
    have "Suc i * ?nr \<le> ?na * ?nr" using that(1) by (intro mult_le_mono1) simp
    with that(2) show ?thesis by simp
  qed
  have c1: "out ! i = posteriors ! i" if "i < ?na" for i
  proof -
    have "i \<notin> set ?idx" using idx_range that by auto
    with o(4) o2(4) out1 [of i] that len show ?thesis by simp
  qed
  have c2: "out ! (?idx ! j) = additional_posteriors ! j" if "j < length additional_posteriors" for j
  proof -
    have "(?idx ! j, additional_posteriors ! j) \<in> set ?ivs"
      using that idx_len by (auto simp: in_set_zip)
    with o2(3) have "out2 ! (?idx ! j) = additional_posteriors ! j" by fastforce
    moreover have "?na + ?na * ?nr \<le> ?idx ! j"
      using idx_range that idx_len nla by (metis nth_mem)
    ultimately show ?thesis using o(4) by simp
  qed
  have c3: "out ! (?na + i * ?nr + l) = (if l = best_labels gw ! i then posteriors ! i else 0)"
    if "i < ?na" "l < ?nr" for i l
  proof -
    have lt: "?na + i * ?nr + l < ?na + ?na * ?nr" using that by (rule slot_range)
    then have "?na + i * ?nr + l \<notin> set ?idx" using idx_range nla by auto
    then have "out2 ! (?na + i * ?nr + l) = ?out1 ! (?na + i * ?nr + l)" using o2(4) by blast
    also have "\<dots> = 0" using out1 [of "?na + i * ?nr + l"] lt len nla by simp
    finally show ?thesis using o(3) that by simp
  qed
  have c4: "out ! k = 0" if "k < ?n" "?na + num_labeled_arcs parts \<le> k" "k \<notin> set ?idx" for k
  proof -
    from that nla have "out ! k = out2 ! k" using o(4) by simp
    also have "\<dots> = ?out1 ! k" using o2(4) that(3) by blast
    also have "\<dots> = 0" using out1 [OF that(1)] that(2) by simp
    finally show ?thesis .
  qed
  from run o(2) c1 c2 c3 c4 bl show ?thesis
    by blast
qed

theorem decode_output_assembly_witness:
  "\<exists>out. decode \<lparr>len_parts = 7, num_arcs = 2, num_labeled_arcs = 4, num_relations = 2, labeled = True\<rparr>
           \<lparr>arcs = [(0, 1), (0, 2)], best_labels = [1, 0], additional_indices = [6]\<rparr>
           [1 / 4, 3 / 4] [1 / 2] = Inr out \<and>
         length out = 7 \<and> out ! 0 = 1 / 4 \<and> out ! 1 = 3 / 4 \<and>
         out ! 2 = 0 \<and> out ! 3 = 1 / 4 \<and> out ! 4 = 3 / 4 \<and> out ! 5 = 0 \<and> out ! 6 = 1 / 2"
proof -
  let ?P = "\<lparr>len_parts = 7, num_arcs = 2, num_labeled_arcs = 4, num_relations = 2, labeled = True\<rparr>"
  let ?G = "\<lparr>arcs = [(0, 1), (0, 2)], best_labels = [1, 0], additional_indices = [6]\<rparr>"
  have dl: "decode_labels [1, 3, 5, 2] (num_relations ?P) = Inr (best_labels ?G, [3, 5])"
    by code_simp
  have "\<exists>out. decode ?P ?G [1 / 4, 3 / 4] [1 / 2] = Inr out \<and>
    length out = len_parts ?P \<and>
    (\<forall>i < num_arcs ?P. out ! i = [1 / 4, 3 / 4] ! i) \<and>
    (\<forall>j < length [1 / 2 :: real]. out ! (additional_indices ?G ! j) = [1 / 2] ! j) \<and>
    (\<forall>i < num_arcs ?P. \<forall>l < num_relations ?P.
       best_labels ?G ! i =
         argmax (take (num_relations ?P) (drop (i * num_relations ?P) [1, 3, 5, 2 :: real])) \<and>
       out ! (num_arcs ?P + i * num_relations ?P + l) =
         (if l = best_labels ?G ! i then [1 / 4, 3 / 4] ! i else 0)) \<and>
    (\<forall>k < len_parts ?P.
       num_arcs ?P + num_labeled_arcs ?P \<le> k \<and> k \<notin> set (additional_indices ?G) \<longrightarrow> out ! k = 0)"
    by (rule decode_output_assembly [OF _ _ _ _ dl]) simp_all
  then obtain out where o: "decode ?P ?G [1 / 4, 3 / 4] [1 / 2] = Inr out" "length out = 7"
    "\<forall>i < 2. out ! i = [1 / 4, 3 / 4] ! i"
    "\<forall>j < 1. out ! ([6] ! j) = [1 / 2] ! j"
    "\<forall>i < 2. \<forall>l < 2. out ! (2 + i * 2 + l) = (if l = [1, 0] ! i then [1 / 4, 3 / 4] ! i else 0)"
    by auto
  have "out ! 0 = 1 / 4" "out ! 1 = 3 / 4"
    using o(3) [rule_format, of 0] o(3) [rule_format, of 1] by simp_all
  moreover have "out ! 6 = 1 / 2"
    using o(4) [rule_format, of 0] by simp
  moreover have "out ! 2 = 0" "out ! 3 = 1 / 4" "out ! 4 = 3 / 4" "out ! 5 = 0"
    using o(5) [rule_format, of 0 0] o(5) [rule_format, of 0 1]
      o(5) [rule_format, of 1 0] o(5) [rule_format, of 1 1] by simp_all
  ultimately show ?thesis
    using o(1,2) by (intro exI [of _ out]) simp
qed
text \<open>
  C6.  \<open>_populate_structure_list\<close>, run on empty structures, puts part number \<open>i\<close> of the
  list under its head, with index \<open>i + offset\<close>, on exactly one side: a NextSibling or
  GrandSibling part on the right iff its sibling lies after its head (its modifier is not
  read), any other part on the right iff its modifier lies after its head; on the left
  otherwise.
\<close>

theorem populate_structure_list_side:
  assumes "populate_structure_list (create_empty_structures n) (create_empty_structures n)
             part_list scores offset = Inr (left_list, right_list)"
    and "i < length part_list"
  shows "(i + offset \<in> set (ps_indices (right_list ! head (part_list ! i)))) =
           (if is_NextSibling (part_list ! i) \<or> is_GrandSibling (part_list ! i)
            then sibling (part_list ! i) > head (part_list ! i)
            else modifier (part_list ! i) > head (part_list ! i)) \<and>
         (i + offset \<in> set (ps_indices (left_list ! head (part_list ! i)))) =
           (\<not> (if is_NextSibling (part_list ! i) \<or> is_GrandSibling (part_list ! i)
               then sibling (part_list ! i) > head (part_list ! i)
               else modifier (part_list ! i) > head (part_list ! i)))"
proof -
  let ?p = "part_list ! i"
  note inv = populate_loop_indices [OF assms(1) [unfolded populate_structure_list_def]]
  have mem: "(i, ?p) \<in> set (enumerate 0 part_list)"
    using assms(2) by (simp add: in_set_enumerate_eq)
  with inv have hd: "head ?p < n"
    by (auto simp: create_empty_structures_def split: if_splits)
  from inv hd have r: "ps_indices (right_list ! head ?p) =
      map (\<lambda>(i, p). i + offset) (filter (\<lambda>(i, p). head p = head ?p \<and> is_right p) (enumerate 0 part_list))"
    by (simp add: create_empty_structures_def)
  from inv hd have l: "ps_indices (left_list ! head ?p) =
      map (\<lambda>(i, p). i + offset) (filter (\<lambda>(i, p). head p = head ?p \<and> \<not> is_right p) (enumerate 0 part_list))"
    by (simp add: create_empty_structures_def)
  have "(i + offset \<in> set (ps_indices (right_list ! head ?p))) = is_right ?p"
    unfolding r using enumerate_offset_mem [OF assms(2), of offset "\<lambda>(i, p). head p = head ?p \<and> is_right p"]
    by simp
  moreover have "(i + offset \<in> set (ps_indices (left_list ! head ?p))) = (\<not> is_right ?p)"
    unfolding l using enumerate_offset_mem [OF assms(2), of offset "\<lambda>(i, p). head p = head ?p \<and> \<not> is_right p"]
    by simp
  ultimately show ?thesis
    by (simp add: is_right_def)
qed

theorem populate_structure_list_side_witness:
  "populate_structure_list (create_empty_structures 3) (create_empty_structures 3)
     [NextSibling 1 2 1, NextSibling 1 0 2, Grandparent 0 2 1] [0.5, 1.5, 2.5] 10
   = Inr ([\<lparr>ps_parts = [], ps_scores = [], ps_indices = []\<rparr>,
           \<lparr>ps_parts = [NextSibling 1 2 1], ps_scores = [0.5], ps_indices = [10]\<rparr>,
           \<lparr>ps_parts = [Grandparent 0 2 1], ps_scores = [2.5], ps_indices = [12]\<rparr>],
          [\<lparr>ps_parts = [], ps_scores = [], ps_indices = []\<rparr>,
           \<lparr>ps_parts = [NextSibling 1 0 2], ps_scores = [1.5], ps_indices = [11]\<rparr>,
           \<lparr>ps_parts = [], ps_scores = [], ps_indices = []\<rparr>]) \<and>
   (1 + 10 \<in> set (ps_indices ([\<lparr>ps_parts = [], ps_scores = [], ps_indices = []\<rparr>,
           \<lparr>ps_parts = [NextSibling 1 0 2], ps_scores = [1.5], ps_indices = [11]\<rparr>,
           \<lparr>ps_parts = [], ps_scores = [], ps_indices = []\<rparr>]
        ! head ([NextSibling 1 2 1, NextSibling 1 0 2, Grandparent 0 2 1] ! 1)))) =
   (if is_NextSibling ([NextSibling 1 2 1, NextSibling 1 0 2, Grandparent 0 2 1] ! 1)
       \<or> is_GrandSibling ([NextSibling 1 2 1, NextSibling 1 0 2, Grandparent 0 2 1] ! 1)
    then sibling ([NextSibling 1 2 1, NextSibling 1 0 2, Grandparent 0 2 1] ! 1)
           > head ([NextSibling 1 2 1, NextSibling 1 0 2, Grandparent 0 2 1] ! 1)
    else modifier ([NextSibling 1 2 1, NextSibling 1 0 2, Grandparent 0 2 1] ! 1)
           > head ([NextSibling 1 2 1, NextSibling 1 0 2, Grandparent 0 2 1] ! 1))"
proof -
  have run: "populate_structure_list (create_empty_structures 3) (create_empty_structures 3)
     [NextSibling 1 2 1, NextSibling 1 0 2, Grandparent 0 2 1] [0.5, 1.5, 2.5] 10
   = Inr ([\<lparr>ps_parts = [], ps_scores = [], ps_indices = []\<rparr>,
           \<lparr>ps_parts = [NextSibling 1 2 1], ps_scores = [0.5], ps_indices = [10]\<rparr>,
           \<lparr>ps_parts = [Grandparent 0 2 1], ps_scores = [2.5], ps_indices = [12]\<rparr>],
          [\<lparr>ps_parts = [], ps_scores = [], ps_indices = []\<rparr>,
           \<lparr>ps_parts = [NextSibling 1 0 2], ps_scores = [1.5], ps_indices = [11]\<rparr>,
           \<lparr>ps_parts = [], ps_scores = [], ps_indices = []\<rparr>])"
    by code_simp
  have len: "1 < length [NextSibling 1 2 1, NextSibling 1 0 2, Grandparent 0 2 1]"
    by simp
  from populate_structure_list_side [OF run len] run show ?thesis
    by blast
qed



text \<open>
  C9.  \<open>chu_liu_edmonds\<close> writes to the array it is given: after the call the diagonal is
  \<open>-inf\<close>, row 0 is \<open>-inf\<close> but for cell \<open>[0, 0]\<close>, which is 0, and every other cell is as
  before.  \<open>chu_liu_edmonds_one_root\<close> leaves the caller's array as it was, since it works
  on the copy that \<open>astype\<close> makes.
\<close>

theorem chu_liu_edmonds_writes_input:
  assumes "square_matrix score_matrix"
  shows "length (snd (chu_liu_edmonds score_matrix)) = length score_matrix \<and>
    (\<forall>i < length score_matrix. \<forall>j < length score_matrix.
       length (snd (chu_liu_edmonds score_matrix) ! i) = length score_matrix \<and>
       snd (chu_liu_edmonds score_matrix) ! i ! j =
         (if i = 0 then (if j = 0 then Fin 0 else NegInf)
          else if i = j then NegInf
          else score_matrix ! i ! j)) \<and>
    snd (chu_liu_edmonds_one_root score_matrix) = score_matrix"
  using assms
  by (simp add: chu_liu_edmonds_snd square_matrixD(1) prepare_scores_cell
      prepare_scores_row_length chu_liu_edmonds_one_root_snd)

theorem chu_liu_edmonds_writes_input_witness:
  "square_matrix [[Fin 7, Fin 8], [Fin 3, Fin 4]] \<and>
   snd (chu_liu_edmonds [[Fin 7, Fin 8], [Fin 3, Fin 4]]) ! 1 ! 0 = Fin 3 \<and>
   snd (chu_liu_edmonds [[Fin 7, Fin 8], [Fin 3, Fin 4]]) ! 1 ! 1 = NegInf \<and>
   snd (chu_liu_edmonds [[Fin 7, Fin 8], [Fin 3, Fin 4]]) ! 0 ! 1 = NegInf \<and>
   snd (chu_liu_edmonds [[Fin 7, Fin 8], [Fin 3, Fin 4]]) ! 0 ! 0 = Fin 0 \<and>
   snd (chu_liu_edmonds_one_root [[Fin 7, Fin 8], [Fin 3, Fin 4]]) = [[Fin 7, Fin 8], [Fin 3, Fin 4]]"
proof -
  have sq: "square_matrix [[Fin 7, Fin 8], [Fin 3, Fin 4]]"
    by (simp add: square_matrix_def)
  from chu_liu_edmonds_writes_input [OF sq] sq show ?thesis
    by simp
qed
end
